theory Spec2Isabelle
  imports Main "HOL-Library.Sublist"
begin

section \<open>The menu widget of js/glecko-menu.js\<close>

text \<open>
  The script is one closure, \<^verbatim>\<open>window.initGleckoMenu\<close>, over three variables
  (\<^verbatim>\<open>isMenuOpen\<close>, \<^verbatim>\<open>isTransitioning\<close>, \<^verbatim>\<open>storedScrollPosition\<close>). Its functions
  act on the page through jQuery and the DOM and chain their phases with
  \<^verbatim>\<open>setTimeout\<close>. The embedding keeps the page and the timer queue in one record,
  \<open>world\<close>; every function of the script is a function from worlds to worlds, and
  a pending timer holds the name of the callback it will run together with the values
  that callback captured.

  Pixel offsets are integers (the fractional offsets of a zoomed page are left out).
  Layout is not computed: the geometry that jQuery reads (\<^verbatim>\<open>offset().top\<close>,
  \<^verbatim>\<open>outerHeight()\<close>, \<^verbatim>\<open>height()\<close>) is data of the page, and a scroll setter stores the
  offset it is given (a browser limits it to the scrollable extent that the layout
  yields).
\<close>

subsection \<open>jQuery class lists\<close>

text \<open>
  A class attribute is the list of its tokens. \<^verbatim>\<open>addClass\<close> appends a name that
  is absent, \<^verbatim>\<open>removeClass\<close> deletes every occurrence; both take the names of
  their space-separated argument one after the other.
\<close>

definition hasClass :: "string list \<Rightarrow> string \<Rightarrow> bool" where
  "hasClass cs c = (c \<in> set cs)"

definition addClass :: "string list \<Rightarrow> string list \<Rightarrow> string list" where
  "addClass names cs = foldl (\<lambda>acc c. if c \<in> set acc then acc else acc @ [c]) cs names"

definition removeClass :: "string list \<Rightarrow> string list \<Rightarrow> string list" where
  "removeClass names cs = foldl (\<lambda>acc c. filter (\<lambda>x. x \<noteq> c) acc) cs names"

text \<open>The attribute selector \<^verbatim>\<open>[class*="s"]\<close>: \<open>s\<close> occurs in the class attribute.
  A needle without white space lies inside one token.\<close>

definition class_contains :: "string \<Rightarrow> string list \<Rightarrow> bool" where
  "class_contains s cs = list_ex (\<lambda>c. sublist s c) cs"

text \<open>JavaScript's \<^verbatim>\<open>a || b\<close> on numbers, where \<open>None\<close> is \<^verbatim>\<open>undefined\<close>:
  zero and \<^verbatim>\<open>undefined\<close> are falsy.\<close>

definition js_or :: "int option \<Rightarrow> int option \<Rightarrow> int option" where
  "js_or a b = (case a of None \<Rightarrow> b | Some x \<Rightarrow> if x = 0 then b else Some x)"

definition or_zero :: "int option \<Rightarrow> int" where
  "or_zero a = (case a of None \<Rightarrow> 0 | Some x \<Rightarrow> x)"

datatype js_error = TypeError

subsection \<open>Media elements\<close>

text \<open>
  The elements that \<^verbatim>\<open>triggerVideoEffects\<close> can reach form a store: a list in
  document order, an element's identity being its index, so that a wrapper and a video
  reached from two matched elements are one object. A parent precedes its children in
  document order; a parent pointer that does not is not followed.
\<close>

record element =
  is_video :: bool
  parent :: "nat option"
  el_classes :: "string list"
  offset_top :: int
  outerHeight :: int
  opacity :: "string option"
  data_src :: "string option"
  src :: string
  autoplay :: bool
  paused :: bool
  play_allowed :: bool
  load_calls :: nat
  play_calls :: nat

fun ancestors :: "element list \<Rightarrow> nat \<Rightarrow> nat list" where
  "ancestors els i =
     (case parent (els ! i) of
        None \<Rightarrow> []
      | Some p \<Rightarrow> if p < i \<and> i < length els then p # ancestors els p else [])"

declare ancestors.simps [simp del]

text \<open>\<^verbatim>\<open>$(el).closest(sel)\<close>: the element itself or its nearest ancestor with the class.\<close>

definition closest :: "element list \<Rightarrow> string \<Rightarrow> nat \<Rightarrow> nat option" where
  "closest els c i = find (\<lambda>j. hasClass (el_classes (els ! j)) c) (i # ancestors els i)"

text \<open>\<^verbatim>\<open>$(el).find('video')[0]\<close>: the first descendant video in document order.\<close>

definition find_video :: "element list \<Rightarrow> nat \<Rightarrow> nat option" where
  "find_video els i =
     find (\<lambda>j. is_video (els ! j) \<and> i \<in> set (ancestors els j)) [0..<length els]"

text \<open>The selection
  \<^verbatim>\<open>$('video[class*="scroll-fx"], .video-bg-container[class*="scroll-fx"]')\<close>.\<close>

definition matched :: "element list \<Rightarrow> nat list" where
  "matched els =
     filter (\<lambda>i. class_contains ''scroll-fx'' (el_classes (els ! i)) \<and>
                 (is_video (els ! i) \<or> hasClass (el_classes (els ! i)) ''video-bg-container''))
       [0..<length els]"

text \<open>What the pass reads of its argument \<^verbatim>\<open>scrollContainer\<close>: \<^verbatim>\<open>scrollTop()\<close>,
  \<^verbatim>\<open>height()\<close> and \<^verbatim>\<open>offset().top\<close>. An empty jQuery selection is \<open>None\<close>.\<close>

record box =
  box_scrollTop :: int
  box_height :: int
  box_offset_top :: int

text \<open>\<^verbatim>\<open>videoElement.load()\<close> counts the call; the load algorithm of a media element
  leaves it paused. \<^verbatim>\<open>videoElement.play()\<close> counts the call; the element plays unless
  the browser refuses, and the rejected promise is caught (line 143).\<close>

definition load :: "element \<Rightarrow> element" where
  "load v = v\<lparr>load_calls := load_calls v + 1, paused := True\<rparr>"

definition play :: "element \<Rightarrow> element" where
  "play v = v\<lparr>play_calls := play_calls v + 1,
              paused := (if play_allowed v then False else paused v)\<rparr>"

definition videoContainer_of :: "element list \<Rightarrow> nat \<Rightarrow> nat option" where
  "videoContainer_of els i =
     (if hasClass (el_classes (els ! i)) ''video-bg-container'' then Some i
      else closest els ''video-bg-container'' i)"

definition videoElement_of :: "element list \<Rightarrow> nat \<Rightarrow> nat option" where
  "videoElement_of els i = (if is_video (els ! i) then Some i else find_video els i)"

definition inViewport :: "box \<Rightarrow> element \<Rightarrow> bool" where
  "inViewport b c =
     (let containerScrollTop = box_scrollTop b;
          containerHeight = box_height b;
          videoTop = offset_top c - box_offset_top b + containerScrollTop;
          videoBottom = videoTop + outerHeight c
      in videoBottom > containerScrollTop \<and> videoTop < containerScrollTop + containerHeight)"

text \<open>
  The four blocks of the callback that change an element. Lines 132 to 135:
  \<^verbatim>\<open>videoElement\<close> takes its staged source when it has one and no source yet, and
  is loaded. Lines 137 to 140: a \<^verbatim>\<open>$videoContainer\<close> that fades in is marked and
  shown. Lines 142 to 144: \<^verbatim>\<open>videoElement\<close> is played when it is paused and has the
  \<^verbatim>\<open>autoplay\<close> attribute. Lines 146 to 148: a \<^verbatim>\<open>$videoContainer\<close> that fades out
  is hidden.
\<close>

definition stage :: "element \<Rightarrow> element" where
  "stage v =
     (case data_src v of
        None \<Rightarrow> v
      | Some staged \<Rightarrow> if src v = [] then load (v\<lparr>src := staged\<rparr>) else v)"

definition reveal :: "element \<Rightarrow> element" where
  "reveal c =
     (if hasClass (el_classes c) ''scroll-fx-in-fade''
      then c\<lparr>el_classes := addClass [''scroll-fx-in-range''] (el_classes c),
             opacity := Some ''1''\<rparr>
      else c)"

definition start :: "element \<Rightarrow> element" where
  "start v = (if autoplay v \<and> paused v then play v else v)"

definition fade :: "element \<Rightarrow> element" where
  "fade c =
     (if hasClass (el_classes c) ''scroll-fx-out-fade'' then c\<lparr>opacity := Some ''0''\<rparr> else c)"

text \<open>The branch of an element in the viewport and the branch of one outside it;
  \<open>v\<close> is \<^verbatim>\<open>videoElement\<close>, \<open>c\<close> is \<^verbatim>\<open>$videoContainer\<close>, and the two may be
  one element.\<close>

definition fx_in :: "nat \<Rightarrow> nat \<Rightarrow> element list \<Rightarrow> element list" where
  "fx_in v c els =
     (let els1 = els[v := stage (els ! v)];
          els2 = els1[c := reveal (els1 ! c)]
      in els2[v := start (els2 ! v)])"

definition fx_out :: "nat \<Rightarrow> element list \<Rightarrow> element list" where
  "fx_out c els = els[c := fade (els ! c)]"

text \<open>
  The body of the \<^verbatim>\<open>each\<close> callback (lines 121 to 149) at the matched element
  \<open>i\<close>. Without a video element it returns at line 125. Line 127 reads
  \<^verbatim>\<open>$videoContainer.offset().top\<close> and \<^verbatim>\<open>scrollContainer.offset().top\<close>; jQuery's
  \<^verbatim>\<open>offset()\<close> of an empty selection is \<^verbatim>\<open>undefined\<close>, so either read raises a
  TypeError when its selection is empty, before anything has been changed.
\<close>

definition video_fx :: "box option \<Rightarrow> element list \<Rightarrow> nat \<Rightarrow> js_error + element list" where
  "video_fx scrollContainer els i =
     (case videoElement_of els i of
        None \<Rightarrow> Inr els
      | Some v \<Rightarrow>
          (case videoContainer_of els i of
             None \<Rightarrow> Inl TypeError
           | Some c \<Rightarrow>
               (case scrollContainer of
                  None \<Rightarrow> Inl TypeError
                | Some b \<Rightarrow>
                    Inr (if inViewport b (els ! c) then fx_in v c els else fx_out c els))))"

text \<open>\<^verbatim>\<open>.each\<close> over the selection: an exception of the callback ends the loop and
  leaves the changes made so far.\<close>

fun each_fx :: "box option \<Rightarrow> nat list \<Rightarrow> element list \<Rightarrow> element list \<times> js_error option" where
  "each_fx sc [] els = (els, None)"
| "each_fx sc (i # is) els =
     (case video_fx sc els i of
        Inl e \<Rightarrow> (els, Some e)
      | Inr els' \<Rightarrow> each_fx sc is els')"

definition triggerVideoEffects ::
  "box option \<Rightarrow> element list \<Rightarrow> element list \<times> js_error option" where
  "triggerVideoEffects scrollContainer els = each_fx scrollContainer (matched els) els"

subsection \<open>The scroll-position properties and the external hooks\<close>

text \<open>
  \<^verbatim>\<open>triggerScrollEffects\<close> redefines \<^verbatim>\<open>window.scrollY\<close>, \<^verbatim>\<open>window.pageYOffset\<close>
  and \<^verbatim>\<open>document.documentElement.scrollTop\<close>. A descriptor is the platform's
  accessor (with its \<^verbatim>\<open>configurable\<close> flag), the literal accessor that the script
  builds at lines 157 and 161, or the data property of lines 168 to 182 (a value, not
  writable, configurable). The world holds the own property of each object; the
  environment holds what \<^verbatim>\<open>Window.prototype\<close> defines. \<^verbatim>\<open>Element.prototype\<close> defines
  \<^verbatim>\<open>scrollTop\<close> in every DOM, so the literal of line 165 is never taken.
\<close>

datatype descriptor = Accessor bool | Literal | DataValue "int option"

definition configurable :: "descriptor \<Rightarrow> bool" where
  "configurable d = (case d of Accessor c \<Rightarrow> c | Literal \<Rightarrow> True | DataValue _ \<Rightarrow> True)"

text \<open>\<^verbatim>\<open>Object.defineProperty\<close> on an extensible object: it raises a TypeError when
  the own property is not configurable and the new descriptor differs from it.\<close>

definition defineProperty :: "descriptor option \<Rightarrow> descriptor \<Rightarrow> js_error + descriptor option" where
  "defineProperty own d =
     (case own of
        None \<Rightarrow> Inr (Some d)
      | Some cur \<Rightarrow> if configurable cur \<or> cur = d then Inr (Some d) else Inl TypeError)"

text \<open>\<^verbatim>\<open>delete obj.p\<close> in sloppy mode: a property that is not configurable stays.\<close>

definition delete_property :: "descriptor option \<Rightarrow> descriptor option" where
  "delete_property own =
     (case own of None \<Rightarrow> None | Some cur \<Rightarrow> if configurable cur then None else Some cur)"

text \<open>\<^verbatim>\<open>Object.getOwnPropertyDescriptor(obj, p) || Object.getOwnPropertyDescriptor(proto, p) || literal\<close>.\<close>

definition original_descriptor :: "descriptor option \<Rightarrow> descriptor option \<Rightarrow> descriptor \<Rightarrow> descriptor" where
  "original_descriptor own proto literal =
     (case own of Some d \<Rightarrow> d | None \<Rightarrow> (case proto of Some d \<Rightarrow> d | None \<Rightarrow> literal))"

text \<open>A property read finds the own property first, then the prototype's.\<close>

definition lookup :: "descriptor option \<Rightarrow> descriptor option \<Rightarrow> descriptor option" where
  "lookup own proto = (case own of Some d \<Rightarrow> Some d | None \<Rightarrow> proto)"

datatype hook_name = ScrollFX | LazySizes | UniversalParallax

text \<open>A hook is external code: given the \<^verbatim>\<open>window.scrollY\<close> it reads, it returns or
  throws (\<open>True\<close>). A hook that is absent fails its capability probe.\<close>

type_synonym hook = "int option \<Rightarrow> bool"

text \<open>The environment: what the script finds around it and does not change. The effect
  of jQuery's \<^verbatim>\<open>.css(map)\<close> on a style attribute is left open.\<close>

record env =
  scrollFX :: "hook option"
  lazySizes_checkElems :: "hook option"
  universalParallax_refresh :: "hook option"
  Window_prototype_scrollY :: "descriptor option"
  Window_prototype_pageYOffset :: "descriptor option"
  css :: "(string \<times> string) list \<Rightarrow> string option \<Rightarrow> string option"

definition Element_prototype_scrollTop :: "descriptor option" where
  "Element_prototype_scrollTop = Some (Accessor True)"

subsection \<open>Timers and the world\<close>

text \<open>
  The callbacks that the script hands to \<^verbatim>\<open>setTimeout\<close>, each with the values it
  captured: the two phases of \<^verbatim>\<open>closeMenu\<close> (lines 23 and 53; the second holds the two
  original style strings), the three of \<^verbatim>\<open>openMenu\<close> (lines 97, 101 and 107), the
  debounced refresh of the scroll handler (line 240, holding \<^verbatim>\<open>scrollTop\<close>) and the
  first pass of \<^verbatim>\<open>setupScrollEffects\<close> (line 246, holding whether its selection
  \<^verbatim>\<open>$scrollContainer\<close> has an element).
\<close>

datatype callback =
    CloseStrip
  | CloseRestore string string
  | OpenAnimate
  | OpenScroll
  | OpenSetup
  | ScrollRefresh int
  | InitialSync bool

record timer =
  tid :: nat
  due :: nat
  cb :: callback

text \<open>Invocations of the two effect functions, recorded for the theorems only.\<close>

datatype call = TSE "int option" | TVE

text \<open>
  The page has one \<^verbatim>\<open>.perspective\<close> element (the container) with one
  \<^verbatim>\<open>.page-container\<close> (the wrapper). \<open>listeners\<close> counts the \<^verbatim>\<open>scroll.effects\<close>
  handlers bound to the container, \<open>scrollTimeout\<close> is the expando property of that
  name on it, \<open>nav_vis\<close> the class \<^verbatim>\<open>is-vis\<close> on the navigation elements.
\<close>

record world =
  isMenuOpen :: bool
  isTransitioning :: bool
  storedScrollPosition :: int
  now :: nat
  next_timer :: nat
  timers :: "timer list"
  persp_classes :: "string list"
  persp_style :: "string option"
  persp_scrollTop :: int
  persp_height :: int
  persp_offset_top :: int
  scrollTimeout :: "nat option"
  listeners :: nat
  container_style :: "string option"
  nav_vis :: bool
  doc_scroll :: int
  scrollY_own :: "descriptor option"
  pageYOffset_own :: "descriptor option"
  docScrollTop_own :: "descriptor option"
  hook_calls :: "(hook_name \<times> int option) list"
  hook_errors :: "hook_name list"
  uncaught :: "js_error list"
  calls :: "call list"
  media :: "element list"

subsection \<open>Reading and writing the scroll position\<close>

text \<open>A read through an accessor, the platform's or the literal one of the script,
  reports the document's scroll offset; a read through the data property reports its
  value; a property that is defined nowhere reads \<^verbatim>\<open>undefined\<close>.\<close>

definition read_descriptor :: "int \<Rightarrow> descriptor option \<Rightarrow> int option" where
  "read_descriptor real d =
     (case d of None \<Rightarrow> None | Some (DataValue v) \<Rightarrow> v | Some _ \<Rightarrow> Some real)"

definition window_scrollY :: "env \<Rightarrow> world \<Rightarrow> int option" where
  "window_scrollY e w =
     read_descriptor (doc_scroll w) (lookup (scrollY_own w) (Window_prototype_scrollY e))"

definition window_pageYOffset :: "env \<Rightarrow> world \<Rightarrow> int option" where
  "window_pageYOffset e w =
     read_descriptor (doc_scroll w) (lookup (pageYOffset_own w) (Window_prototype_pageYOffset e))"

definition documentElement_scrollTop :: "world \<Rightarrow> int option" where
  "documentElement_scrollTop w =
     read_descriptor (doc_scroll w) (lookup (docScrollTop_own w) Element_prototype_scrollTop)"

definition window_scrollTo :: "int \<Rightarrow> world \<Rightarrow> world" where
  "window_scrollTo y w = w\<lparr>doc_scroll := y\<rparr>"

text \<open>The assignment \<^verbatim>\<open>document.documentElement.scrollTop = y\<close>: ignored while the
  property is the data property, which is not writable.\<close>

definition set_documentElement_scrollTop :: "int \<Rightarrow> world \<Rightarrow> world" where
  "set_documentElement_scrollTop y w =
     (case lookup (docScrollTop_own w) Element_prototype_scrollTop of
        Some (DataValue _) \<Rightarrow> w
      | _ \<Rightarrow> w\<lparr>doc_scroll := y\<rparr>)"

subsection \<open>triggerScrollEffects (lines 153 to 229)\<close>

text \<open>One guarded invocation of a hook (lines 184 to 207): the call is recorded with the
  \<^verbatim>\<open>window.scrollY\<close> that the hook reads, and an exception is caught and logged.\<close>

definition call_hook :: "env \<Rightarrow> hook_name \<Rightarrow> hook option \<Rightarrow> world \<Rightarrow> world" where
  "call_hook e n h w =
     (case h of
        None \<Rightarrow> w
      | Some f \<Rightarrow>
          w\<lparr>hook_calls := hook_calls w @ [(n, window_scrollY e w)],
            hook_errors := (if f (window_scrollY e w) then hook_errors w @ [n]
                            else hook_errors w)\<rparr>)"

definition call_hooks :: "env \<Rightarrow> world \<Rightarrow> world" where
  "call_hooks e w =
     call_hook e UniversalParallax (universalParallax_refresh e)
       (call_hook e LazySizes (lazySizes_checkElems e)
         (call_hook e ScrollFX (scrollFX e) w))"

text \<open>The \<^verbatim>\<open>try\<close> block: the three redefinitions, then the hooks. The first
  \<^verbatim>\<open>defineProperty\<close> that throws leaves the block.\<close>

definition try_block :: "env \<Rightarrow> int option \<Rightarrow> world \<Rightarrow> world \<times> js_error option" where
  "try_block e scrollTop w =
     (case defineProperty (scrollY_own w) (DataValue scrollTop) of
        Inl err \<Rightarrow> (w, Some err)
      | Inr y \<Rightarrow>
          (case defineProperty (pageYOffset_own w) (DataValue scrollTop) of
             Inl err \<Rightarrow> (w\<lparr>scrollY_own := y\<rparr>, Some err)
           | Inr p \<Rightarrow>
               (case defineProperty (docScrollTop_own w) (DataValue scrollTop) of
                  Inl err \<Rightarrow> (w\<lparr>scrollY_own := y, pageYOffset_own := p\<rparr>, Some err)
                | Inr d \<Rightarrow>
                    (call_hooks e
                       (w\<lparr>scrollY_own := y, pageYOffset_own := p, docScrollTop_own := d\<rparr>),
                     None))))"

text \<open>One step of the \<^verbatim>\<open>finally\<close> block:
  \<^verbatim>\<open>try { Object.defineProperty(obj, p, original) } catch (e) { delete obj.p }\<close>.\<close>

definition restore_property :: "descriptor option \<Rightarrow> descriptor \<Rightarrow> descriptor option" where
  "restore_property own original =
     (case defineProperty own original of Inl err \<Rightarrow> delete_property own | Inr own' \<Rightarrow> own')"

text \<open>The function returns the world and the exception that leaves the \<^verbatim>\<open>try\<close>
  block, if any, after the \<^verbatim>\<open>finally\<close> block has run.\<close>

definition triggerScrollEffects :: "env \<Rightarrow> int option \<Rightarrow> world \<Rightarrow> world \<times> js_error option" where
  "triggerScrollEffects e scrollTop w0 =
     (let w = w0\<lparr>calls := calls w0 @ [TSE scrollTop]\<rparr>;
          originalScrollYDescriptor =
            original_descriptor (scrollY_own w) (Window_prototype_scrollY e) Literal;
          originalPageYOffsetDescriptor =
            original_descriptor (pageYOffset_own w) (Window_prototype_pageYOffset e) Literal;
          originalDocScrollTopDescriptor =
            original_descriptor (docScrollTop_own w) Element_prototype_scrollTop Literal;
          (w1, thrown) = try_block e scrollTop w
      in (w1\<lparr>scrollY_own := restore_property (scrollY_own w1) originalScrollYDescriptor,
             pageYOffset_own :=
               restore_property (pageYOffset_own w1) originalPageYOffsetDescriptor,
             docScrollTop_own :=
               restore_property (docScrollTop_own w1) originalDocScrollTopDescriptor\<rparr>,
          thrown))"

subsection \<open>Timers\<close>

definition setTimeout :: "callback \<Rightarrow> nat \<Rightarrow> world \<Rightarrow> world" where
  "setTimeout c delay w =
     w\<lparr>timers := timers w @ [\<lparr>tid = next_timer w, due = now w + delay, cb = c\<rparr>],
       next_timer := next_timer w + 1\<rparr>"

text \<open>\<^verbatim>\<open>clearTimeout(undefined)\<close> and \<^verbatim>\<open>clearTimeout\<close> of a timer that has fired do
  nothing.\<close>

definition clearTimeout :: "nat option \<Rightarrow> world \<Rightarrow> world" where
  "clearTimeout i w =
     (case i of None \<Rightarrow> w | Some k \<Rightarrow> w\<lparr>timers := filter (\<lambda>t. tid t \<noteq> k) (timers w)\<rparr>)"

subsection \<open>closeMenu (lines 6 to 79)\<close>

text \<open>The selection \<^verbatim>\<open>$('.perspective--modalview')\<close> holds the container when it has
  the class and is empty otherwise.\<close>

definition modalview :: "world \<Rightarrow> bool" where
  "modalview w = hasClass (persp_classes w) ''perspective--modalview''"

definition modalview_scrollTop :: "world \<Rightarrow> int option" where
  "modalview_scrollTop w = (if modalview w then Some (persp_scrollTop w) else None)"

definition closeMenu :: "world \<Rightarrow> world" where
  "closeMenu w =
     (if isTransitioning w then w
      else
        let w1 = w\<lparr>isTransitioning := True, isMenuOpen := False\<rparr>;
            currentModalScroll = or_zero (modalview_scrollTop w1);
            w2 = w1\<lparr>storedScrollPosition := currentModalScroll\<rparr>;
            w3 = w2\<lparr>listeners := 0\<rparr>;
            w4 = w3\<lparr>nav_vis := False\<rparr>;
            w5 = w4\<lparr>persp_classes :=
                      removeClass [''effect-rotate-left--animate''] (persp_classes w4)\<rparr>
        in setTimeout CloseStrip 400 w5)"

text \<open>\<^verbatim>\<open>attr('style') || ''\<close>.\<close>

definition attr_or_empty :: "string option \<Rightarrow> string" where
  "attr_or_empty a = (case a of None \<Rightarrow> [] | Some s \<Rightarrow> s)"

text \<open>\<^verbatim>\<open>attr('style', s)\<close> when \<open>s\<close> is truthy, \<^verbatim>\<open>removeAttr('style')\<close> otherwise
  (lines 55 to 64).\<close>

definition restore_style :: "string \<Rightarrow> string option" where
  "restore_style original = (if original \<noteq> [] then Some original else None)"

text \<open>The callback of line 23, 400 ms after \<^verbatim>\<open>closeMenu\<close>. Line 50 assigns
  \<^verbatim>\<open>document.body.scrollTop\<close>, which is not the scrolling element of a document in
  standards mode; lines 48 and 49 have moved the document by then.\<close>

definition close_strip :: "env \<Rightarrow> world \<Rightarrow> world" where
  "close_strip e w =
     (let originalPerspectiveStyle = attr_or_empty (persp_style w);
          originalContainerStyle = attr_or_empty (container_style w);
          w1 = w\<lparr>persp_style :=
                   css e [(''transform'', ''none !important''),
                          (''perspective'', ''none !important''),
                          (''transform-style'', ''flat !important'')] (persp_style w)\<rparr>;
          w2 = w1\<lparr>container_style :=
                    css e [(''transform'', ''none !important''),
                           (''transform-origin'', ''initial !important''),
                           (''backface-visibility'', ''visible !important'')]
                      (container_style w1)\<rparr>;
          w3 = w2\<lparr>persp_classes :=
                    removeClass [''perspective--modalview'', ''effect-rotate-left'']
                      (persp_classes w2)\<rparr>;
          w4 = window_scrollTo (storedScrollPosition w3) w3;
          w5 = set_documentElement_scrollTop (storedScrollPosition w4) w4
      in setTimeout (CloseRestore originalPerspectiveStyle originalContainerStyle) 100 w5)"

text \<open>The callback of line 53, 100 ms later: the final phase.\<close>

definition close_restore :: "env \<Rightarrow> string \<Rightarrow> string \<Rightarrow> world \<Rightarrow> world" where
  "close_restore e originalPerspectiveStyle originalContainerStyle w =
     (let w1 = w\<lparr>persp_style := restore_style originalPerspectiveStyle\<rparr>;
          w2 = w1\<lparr>container_style := restore_style originalContainerStyle\<rparr>;
          finalScroll =
            or_zero (js_or (window_scrollY e w2) (js_or (window_pageYOffset e w2) (Some 0)));
          w3 = (if \<bar>finalScroll - storedScrollPosition w2\<bar> > 10
                then window_scrollTo (storedScrollPosition w2) w2
                else w2)
      in w3\<lparr>isTransitioning := False\<rparr>)"

subsection \<open>triggerVideoEffects and the refresh of the effects\<close>

text \<open>\<^verbatim>\<open>triggerVideoEffects\<close> on the media of the world; an exception that leaves it
  is uncaught.\<close>

definition video_pass :: "box option \<Rightarrow> world \<Rightarrow> world" where
  "video_pass scrollContainer w =
     (case triggerVideoEffects scrollContainer (media w) of
        (els, r) \<Rightarrow>
          w\<lparr>media := els, calls := calls w @ [TVE],
            uncaught := (case r of None \<Rightarrow> uncaught w | Some err \<Rightarrow> uncaught w @ [err])\<rparr>)"

text \<open>The body shared by the two refresh callbacks (lines 241, 242 and 248, 249):
  \<^verbatim>\<open>triggerScrollEffects(scrollTop); triggerVideoEffects(container)\<close>.\<close>

definition refresh :: "env \<Rightarrow> int option \<Rightarrow> box option \<Rightarrow> world \<Rightarrow> world" where
  "refresh e scrollTop scrollContainer w =
     (case triggerScrollEffects e scrollTop w of
        (w1, Some err) \<Rightarrow> w1\<lparr>uncaught := uncaught w1 @ [err]\<rparr>
      | (w1, None) \<Rightarrow> video_pass scrollContainer w1)"

subsection \<open>setupScrollEffects (lines 231 to 251)\<close>

text \<open>The handler bound at line 234; \<^verbatim>\<open>this\<close> is the container.\<close>

definition scroll_handler :: "world \<Rightarrow> world" where
  "scroll_handler w =
     (if \<not> isMenuOpen w then w
      else
        let scrollTop = persp_scrollTop w;
            w1 = clearTimeout (scrollTimeout w) w;
            w2 = setTimeout (ScrollRefresh scrollTop) 16 w1
        in w2\<lparr>scrollTimeout := Some (next_timer w1)\<rparr>)"

definition setupScrollEffects :: "world \<Rightarrow> world" where
  "setupScrollEffects w =
     (let w1 = (if modalview w then w\<lparr>listeners := listeners w + 1\<rparr> else w)
      in setTimeout (InitialSync (modalview w)) 200 w1)"

subsection \<open>openMenu (lines 82 to 113)\<close>

definition openMenu :: "env \<Rightarrow> world \<Rightarrow> world" where
  "openMenu e w =
     (if isTransitioning w then w
      else
        let w1 = w\<lparr>isTransitioning := True, isMenuOpen := True\<rparr>;
            currentScrollPos =
              or_zero (js_or (window_scrollY e w1)
                        (js_or (window_pageYOffset e w1)
                          (js_or (documentElement_scrollTop w1) (Some 0))));
            w2 = w1\<lparr>storedScrollPosition := currentScrollPos\<rparr>;
            w3 = w2\<lparr>persp_scrollTop := 0\<rparr>;
            w4 = w3\<lparr>persp_classes :=
                      removeClass [''perspective--modalview'', ''effect-rotate-left'',
                                   ''effect-rotate-left--animate'', ''modalview'']
                        (persp_classes w3)\<rparr>;
            w5 = w4\<lparr>persp_classes :=
                      addClass [''perspective--modalview'', ''effect-rotate-left'']
                        (persp_classes w4)\<rparr>
        in setTimeout OpenAnimate 50 w5)"

definition open_animate :: "world \<Rightarrow> world" where
  "open_animate w =
     (let w1 = w\<lparr>persp_classes := addClass [''effect-rotate-left--animate''] (persp_classes w)\<rparr>;
          w2 = w1\<lparr>nav_vis := True\<rparr>
      in setTimeout OpenScroll 100 w2)"

definition open_scroll :: "world \<Rightarrow> world" where
  "open_scroll w =
     (let w1 = (if modalview w then w\<lparr>persp_scrollTop := storedScrollPosition w\<rparr> else w)
      in setTimeout OpenSetup 200 w1)"

definition open_setup :: "world \<Rightarrow> world" where
  "open_setup w = (setupScrollEffects w)\<lparr>isTransitioning := False\<rparr>"

subsection \<open>The click handlers (lines 254 to 274)\<close>

definition toggle :: "env \<Rightarrow> world \<Rightarrow> world" where
  "toggle e w =
     (if hasClass (persp_classes w) ''effect-rotate-left--animate'' then closeMenu w
      else openMenu e w)"

text \<open>The delegated selector \<^verbatim>\<open>.effect-rotate-left--animate .page-container\<close> matches
  the wrapper only while the container has the class.\<close>

definition click_page :: "world \<Rightarrow> world" where
  "click_page w =
     (if hasClass (persp_classes w) ''effect-rotate-left--animate'' then closeMenu w else w)"

subsection \<open>The event loop\<close>

definition run_callback :: "env \<Rightarrow> callback \<Rightarrow> world \<Rightarrow> world" where
  "run_callback e c w =
     (case c of
        CloseStrip \<Rightarrow> close_strip e w
      | CloseRestore ps cs \<Rightarrow> close_restore e ps cs w
      | OpenAnimate \<Rightarrow> open_animate w
      | OpenScroll \<Rightarrow> open_scroll w
      | OpenSetup \<Rightarrow> open_setup w
      | ScrollRefresh scrollTop \<Rightarrow>
          refresh e (Some scrollTop)
            (Some \<lparr>box_scrollTop = persp_scrollTop w, box_height = persp_height w,
                   box_offset_top = persp_offset_top w\<rparr>) w
      | InitialSync sel \<Rightarrow>
          refresh e (if sel then Some (persp_scrollTop w) else None)
            (if sel
             then Some \<lparr>box_scrollTop = persp_scrollTop w, box_height = persp_height w,
                        box_offset_top = persp_offset_top w\<rparr>
             else None) w)"

text \<open>The timer that fires next up to the time \<open>T\<close>: the earliest due, the one
  registered first among equals.\<close>

fun next_due :: "nat \<Rightarrow> timer list \<Rightarrow> timer option" where
  "next_due T [] = None"
| "next_due T (t # ts) =
     (case next_due T ts of
        None \<Rightarrow> if due t \<le> T then Some t else None
      | Some u \<Rightarrow> if due t \<le> due u then Some t else Some u)"

definition fire :: "env \<Rightarrow> timer \<Rightarrow> world \<Rightarrow> world" where
  "fire e t w =
     run_callback e (cb t)
       (w\<lparr>timers := filter (\<lambda>u. tid u \<noteq> tid t) (timers w), now := max (now w) (due t)\<rparr>)"

text \<open>Every callback schedules at most one callback of a lower rank, so the calls
  pending at any time run out.\<close>

fun rank :: "callback \<Rightarrow> nat" where
  "rank CloseStrip = 2"
| "rank (CloseRestore ps cs) = 1"
| "rank OpenAnimate = 4"
| "rank OpenScroll = 3"
| "rank OpenSetup = 2"
| "rank (ScrollRefresh scrollTop) = 1"
| "rank (InitialSync sel) = 1"

definition pending :: "world \<Rightarrow> nat" where
  "pending w = sum_list (map (\<lambda>t. rank (cb t)) (timers w))"

lemma timers_call_hooks: "timers (call_hooks e w) = timers w"
  by (simp add: call_hooks_def call_hook_def split: option.splits)

lemma timers_try_block: "timers (fst (try_block e st w)) = timers w"
  by (simp add: try_block_def timers_call_hooks split: sum.splits)

lemma timers_triggerScrollEffects: "timers (fst (triggerScrollEffects e st w)) = timers w"
proof -
  have "timers (fst (try_block e st (w\<lparr>calls := calls w @ [TSE st]\<rparr>))) = timers w"
    by (simp add: timers_try_block)
  then show ?thesis
    by (auto simp: triggerScrollEffects_def Let_def split: prod.splits)
qed

lemma timers_video_pass: "timers (video_pass sc w) = timers w"
  by (simp add: video_pass_def split: prod.splits)

lemma timers_refresh: "timers (refresh e st sc w) = timers w"
  using timers_triggerScrollEffects [of e st w]
  by (auto simp: refresh_def timers_video_pass split: prod.splits option.splits)

lemma pending_setTimeout: "pending (setTimeout c d w) = pending w + rank c"
  by (simp add: pending_def setTimeout_def)

lemma pending_run_callback: "pending (run_callback e c w) < pending w + rank c"
proof (cases c)
  case CloseStrip
  then show ?thesis
    by (simp add: run_callback_def close_strip_def Let_def pending_setTimeout
        window_scrollTo_def set_documentElement_scrollTop_def pending_def setTimeout_def
        split: option.splits descriptor.splits)
next
  case (CloseRestore ps cs)
  then show ?thesis
    by (simp add: run_callback_def close_restore_def Let_def window_scrollTo_def pending_def)
next
  case OpenAnimate
  then show ?thesis
    by (simp add: run_callback_def open_animate_def Let_def pending_def setTimeout_def)
next
  case OpenScroll
  then show ?thesis
    by (simp add: run_callback_def open_scroll_def Let_def pending_def setTimeout_def)
next
  case OpenSetup
  then show ?thesis
    by (simp add: run_callback_def open_setup_def setupScrollEffects_def Let_def pending_def
        setTimeout_def)
next
  case (ScrollRefresh st)
  then show ?thesis
    by (simp add: run_callback_def pending_def timers_refresh)
next
  case (InitialSync sel)
  then show ?thesis
    by (simp add: run_callback_def pending_def timers_refresh)
qed

lemma next_due_Some: "next_due T ts = Some t \<Longrightarrow> t \<in> set ts \<and> due t \<le> T"
  by (induction ts arbitrary: t) (auto split: option.splits if_splits)

lemma sum_filter_tid:
  "t \<in> set ts \<Longrightarrow>
   sum_list (map f (filter (\<lambda>u. tid u \<noteq> tid t) ts)) + (f t :: nat) \<le> sum_list (map f ts)"
proof (induction ts)
  case Nil
  then show ?case by simp
next
  case (Cons a ts)
  have le: "sum_list (map f (filter (\<lambda>u. tid u \<noteq> tid t) ts)) \<le> sum_list (map f ts)" for ts
    by (induction ts) auto
  show ?case
  proof (cases "a = t")
    case True
    then show ?thesis using le [of ts] by simp
  next
    case False
    with Cons show ?thesis by auto
  qed
qed

lemma rank_pos: "0 < rank c"
  by (cases c) auto

lemma pending_fire:
  assumes "next_due T (timers w) = Some t"
  shows "pending (fire e t w) < pending w"
proof -
  let ?w = "w\<lparr>timers := filter (\<lambda>u. tid u \<noteq> tid t) (timers w), now := max (now w) (due t)\<rparr>"
  have "t \<in> set (timers w)" using assms next_due_Some by blast
  then have "pending ?w + rank (cb t) \<le> pending w"
    using sum_filter_tid [of t "timers w" "\<lambda>t. rank (cb t)"] by (simp add: pending_def)
  moreover have "pending (fire e t w) < pending ?w + rank (cb t)"
    unfolding fire_def by (rule pending_run_callback)
  ultimately show ?thesis by linarith
qed

text \<open>Time passes until \<open>T\<close>: the timers due by then fire in order, the ones they
  schedule included.\<close>

function run_until :: "env \<Rightarrow> nat \<Rightarrow> world \<Rightarrow> world" where
  "run_until e T w =
     (case next_due T (timers w) of
        None \<Rightarrow> w\<lparr>now := max (now w) T\<rparr>
      | Some t \<Rightarrow> run_until e T (fire e t w))"
  by pat_completeness auto
termination
  by (relation "measure (\<lambda>(e, T, w). pending w)") (auto simp: pending_fire)

declare run_until.simps [simp del]

text \<open>A scroll event on the container runs every handler bound to it.\<close>

definition deliver_scroll :: "world \<Rightarrow> world" where
  "deliver_scroll w = (scroll_handler ^^ listeners w) w"

text \<open>What happens to the page from outside: the four clicks that the script listens
  to, the user scrolling the overlay to an offset, the document being moved to an offset
  (by the user or by the browser), and time passing.\<close>

datatype event =
    ClickToggle
  | ClickReturn
  | ClickNavItem
  | ClickPage
  | ScrollTo int
  | DocScroll int
  | Wait nat

definition apply_event :: "env \<Rightarrow> world \<Rightarrow> event \<Rightarrow> world" where
  "apply_event e w ev =
     (case ev of
        ClickToggle \<Rightarrow> toggle e w
      | ClickReturn \<Rightarrow> closeMenu w
      | ClickNavItem \<Rightarrow> closeMenu w
      | ClickPage \<Rightarrow> click_page w
      | ScrollTo y \<Rightarrow> deliver_scroll (w\<lparr>persp_scrollTop := y\<rparr>)
      | DocScroll y \<Rightarrow> w\<lparr>doc_scroll := y\<rparr>
      | Wait d \<Rightarrow> run_until e (now w + d) w)"

definition run_events :: "env \<Rightarrow> event list \<Rightarrow> world \<Rightarrow> world" where
  "run_events e evs w = foldl (apply_event e) w evs"

text \<open>The page after \<^verbatim>\<open>initGleckoMenu\<close> has run (lines 2 to 4): nothing is pending.\<close>

definition fresh :: "world \<Rightarrow> bool" where
  "fresh w =
     (\<not> isMenuOpen w \<and> \<not> isTransitioning w \<and> storedScrollPosition w = 0 \<and>
      timers w = [] \<and> listeners w = 0 \<and> scrollTimeout w = None)"

subsection \<open>Transitions in flight\<close>

text \<open>A transition is in flight while one of its phases is pending. The timers are in
  order when their identifiers are distinct and already issued, and the identifier kept
  in \<open>scrollTimeout\<close> is not that of a phase of a transition.\<close>

fun is_transition :: "callback \<Rightarrow> bool" where
  "is_transition CloseStrip = True"
| "is_transition (CloseRestore ps cs) = True"
| "is_transition OpenAnimate = True"
| "is_transition OpenScroll = True"
| "is_transition OpenSetup = True"
| "is_transition (ScrollRefresh scrollTop) = False"
| "is_transition (InitialSync sel) = False"

definition in_flight :: "world \<Rightarrow> nat" where
  "in_flight w = length (filter (\<lambda>t. is_transition (cb t)) (timers w))"

definition timers_ok :: "world \<Rightarrow> bool" where
  "timers_ok w =
     (distinct (map tid (timers w)) \<and> (\<forall>t \<in> set (timers w). tid t < next_timer w) \<and>
      (case scrollTimeout w of
         None \<Rightarrow> True
       | Some k \<Rightarrow> k < next_timer w \<and>
                  (\<forall>t \<in> set (timers w). tid t = k \<longrightarrow> \<not> is_transition (cb t))))"

definition guard_inv :: "world \<Rightarrow> bool" where
  "guard_inv w = (timers_ok w \<and> in_flight w = (if isTransitioning w then 1 else 0))"

subsection \<open>The hooks that run and the properties that can be redefined\<close>

text \<open>The hooks that pass their capability probe, in the order of the calls; those of
  them that throw when they read the offset \<open>y\<close>; and whether the three redefinitions
  of lines 168 to 182 go through.\<close>

definition hook_of :: "env \<Rightarrow> hook_name \<Rightarrow> hook option" where
  "hook_of e n =
     (case n of ScrollFX \<Rightarrow> scrollFX e | LazySizes \<Rightarrow> lazySizes_checkElems e
      | UniversalParallax \<Rightarrow> universalParallax_refresh e)"

definition present_hooks :: "env \<Rightarrow> hook_name list" where
  "present_hooks e = filter (\<lambda>n. hook_of e n \<noteq> None) [ScrollFX, LazySizes, UniversalParallax]"

definition throwing_hooks :: "env \<Rightarrow> int option \<Rightarrow> hook_name list" where
  "throwing_hooks e y =
     filter (\<lambda>n. case hook_of e n of None \<Rightarrow> False | Some f \<Rightarrow> f y)
       [ScrollFX, LazySizes, UniversalParallax]"

definition overridable :: "int option \<Rightarrow> world \<Rightarrow> bool" where
  "overridable y w =
     (\<not> isl (defineProperty (scrollY_own w) (DataValue y)) \<and>
      \<not> isl (defineProperty (pageYOffset_own w) (DataValue y)) \<and>
      \<not> isl (defineProperty (docScrollTop_own w) (DataValue y)))"

subsection \<open>A page at rest and a full cycle\<close>

text \<open>The three properties report the document's offset when none of them is
  overridden. A page is at rest when no transition runs and no timer is pending.
  \<open>open_then_close\<close> is \<^verbatim>\<open>openMenu\<close> followed by \<open>d1\<close> ms, then
  \<^verbatim>\<open>closeMenu\<close> followed by \<open>d2\<close> ms; when the close begins the document stands at
  \<open>y\<close>, where the browser or the user has moved it while the overlay was shown. The
  overlay is not scrolled in between.\<close>

definition reports_document :: "env \<Rightarrow> world \<Rightarrow> bool" where
  "reports_document e w =
     (window_scrollY e w = Some (doc_scroll w) \<and> window_pageYOffset e w = Some (doc_scroll w) \<and>
      documentElement_scrollTop w = Some (doc_scroll w))"

definition at_rest :: "world \<Rightarrow> bool" where
  "at_rest w = (\<not> isTransitioning w \<and> timers w = [])"

definition open_then_close :: "env \<Rightarrow> nat \<Rightarrow> int \<Rightarrow> nat \<Rightarrow> world \<Rightarrow> world" where
  "open_then_close e d1 y d2 w =
     (let w1 = run_until e (now w + d1) (openMenu e w);
          w2 = w1\<lparr>doc_scroll := y\<rparr>
      in run_until e (now w2 + d2) (closeMenu w2))"


text \<open>The names that line 94 removes from the container, those of lines 21 and 45 among
  them.\<close>

definition marker_classes :: "string list" where
  "marker_classes = [''perspective--modalview'', ''effect-rotate-left'',
                     ''effect-rotate-left--animate'', ''modalview'']"


text \<open>The position that line 87 reads,
  \<^verbatim>\<open>window.scrollY || window.pageYOffset || document.documentElement.scrollTop || 0\<close>.\<close>

definition scroll_position :: "env \<Rightarrow> world \<Rightarrow> int" where
  "scroll_position e w =
     or_zero (js_or (window_scrollY e w)
               (js_or (window_pageYOffset e w)
                 (js_or (documentElement_scrollTop w) (Some 0))))"


text \<open>The class list of the container after lines 94, 95 and 98.\<close>

definition opened_classes :: "string list \<Rightarrow> string list" where
  "opened_classes cs =
     addClass [''effect-rotate-left--animate'']
       (addClass [''perspective--modalview'', ''effect-rotate-left'']
         (removeClass [''perspective--modalview'', ''effect-rotate-left'',
                       ''effect-rotate-left--animate'', ''modalview''] cs))"



text \<open>What a refresh of the effects leaves alone.\<close>

definition menu_part where
  "menu_part w =
     (isMenuOpen w, isTransitioning w, storedScrollPosition w, now w, next_timer w, timers w,
      persp_classes w, persp_style w, persp_scrollTop w, persp_height w, persp_offset_top w,
      scrollTimeout w, listeners w, container_style w, nav_vis w, doc_scroll w)"

subsection \<open>A burst of scroll events\<close>

text \<open>\<open>opened\<close> is \<^verbatim>\<open>openMenu\<close> followed by \<open>d\<close> ms. \<open>scroll_burst\<close> is a sequence of
  scroll events on the overlay, each after a gap in milliseconds. \<open>kept\<close> is what the
  scroll handler leaves alone and a refresh reads.\<close>

definition opened :: "env \<Rightarrow> nat \<Rightarrow> world \<Rightarrow> world" where
  "opened e d w = run_until e (now w + d) (openMenu e w)"

fun scroll_burst :: "env \<Rightarrow> (nat \<times> int) list \<Rightarrow> world \<Rightarrow> world" where
  "scroll_burst e [] w = w"
| "scroll_burst e ((g, y) # r) w =
     scroll_burst e r (apply_event e (apply_event e w (Wait g)) (ScrollTo y))"

definition kept ::
  "world \<Rightarrow> bool \<times> nat \<times> call list \<times> descriptor option \<times> descriptor option \<times> descriptor option \<times> int \<times> int" where
  "kept w = (isMenuOpen w, listeners w, calls w, scrollY_own w, pageYOffset_own w,
             docScrollTop_own w, persp_height w, persp_offset_top w)"

text \<open>The three scroll properties are redefinable when the descriptor that
  \<^verbatim>\<open>triggerScrollEffects\<close> saves as the original of each (lines 155 to 165) is
  configurable, as the accessors of a browser are: then the redefinitions of lines 168
  to 182 go through, in this call and in the calls after it.\<close>

definition redefinable :: "env \<Rightarrow> world \<Rightarrow> bool" where
  "redefinable e w =
     (configurable (original_descriptor (scrollY_own w) (Window_prototype_scrollY e) Literal) \<and>
      configurable
        (original_descriptor (pageYOffset_own w) (Window_prototype_pageYOffset e) Literal) \<and>
      configurable (original_descriptor (docScrollTop_own w) Element_prototype_scrollTop Literal))"

text \<open>Each refresh (lines 241 and 242, lines 248 and 249) begins with one call of
  \<^verbatim>\<open>triggerScrollEffects\<close>: \<open>refreshes\<close> keeps these of the recorded calls, one for each
  refresh that has run. \<open>debounce_timers\<close> are the pending callbacks of the scroll handler
  (line 240). \<open>shown_at r y gys\<close> is the offset of the overlay \<open>r\<close> ms after a scroll event
  to \<open>y\<close> that the events \<open>gys\<close> follow, each after its gap; an event at that very time
  comes after.\<close>

definition refreshes :: "call list \<Rightarrow> call list" where
  "refreshes cs = filter (\<lambda>c. c \<noteq> TVE) cs"

definition debounce_timers :: "world \<Rightarrow> timer list" where
  "debounce_timers w =
     filter (\<lambda>t. case cb t of ScrollRefresh scrollTop \<Rightarrow> True | _ \<Rightarrow> False) (timers w)"

fun shown_at :: "nat \<Rightarrow> int \<Rightarrow> (nat \<times> int) list \<Rightarrow> int" where
  "shown_at r y [] = y"
| "shown_at r y ((g, y') # gys) = (if r \<le> g then y else shown_at (r - g) y' gys)"

text \<open>\<open>burst\<close> is a scroll event to \<open>y0\<close>, the events \<open>gys\<close> after it, each after its gap,
  and then \<open>q\<close> ms without an event; \<open>bursts\<close> is one of them after the other, \<open>span\<close>
  the time they take. They are spaced when every gap inside a burst is less than 16 ms
  and every time without an event is 16 ms or more: every sequence of scroll events
  is one of spaced bursts.\<close>

definition burst :: "env \<Rightarrow> int \<Rightarrow> (nat \<times> int) list \<Rightarrow> nat \<Rightarrow> world \<Rightarrow> world" where
  "burst e y0 gys q w =
     apply_event e (scroll_burst e gys (apply_event e w (ScrollTo y0))) (Wait q)"

fun bursts :: "env \<Rightarrow> (int \<times> (nat \<times> int) list \<times> nat) list \<Rightarrow> world \<Rightarrow> world" where
  "bursts e [] w = w"
| "bursts e ((y0, gys, q) # bs) w = bursts e bs (burst e y0 gys q w)"

fun span :: "(int \<times> (nat \<times> int) list \<times> nat) list \<Rightarrow> nat" where
  "span [] = 0"
| "span ((y0, gys, q) # bs) = sum_list (map fst gys) + q + span bs"

fun spaced :: "(int \<times> (nat \<times> int) list \<times> nat) list \<Rightarrow> bool" where
  "spaced [] = True"
| "spaced ((y0, gys, q) # bs) = ((\<forall>g \<in> set (map fst gys). g < 16) \<and> 16 \<le> q \<and> spaced bs)"

text \<open>The states of the overlay between the events of a burst. \<open>syncs k t r\<close> is the
  first pass of \<^verbatim>\<open>setupScrollEffects\<close> (line 246) pending under the identifier \<open>k\<close>, due
  \<open>r\<close> ms after the time \<open>t\<close>, or nothing when \<open>r = 0\<close>. The overlay is listening when the
  menu is open, a handler is bound, and beside that pass at most one timer is pending,
  the one that \<open>scrollTimeout\<close> names; it is armed for the offset \<open>y\<close> when that timer is
  the refresh for \<open>y\<close>, due 16 ms from now; it is settled when no such timer is
  pending. \<open>traced\<close> relates the recorded calls to a list
  of calls: they have the same refreshes, and they are that list when the scroll
  properties are redefinable.\<close>

definition syncs :: "nat \<Rightarrow> nat \<Rightarrow> nat \<Rightarrow> timer list" where
  "syncs k t r = (if r = 0 then [] else [\<lparr>tid = k, due = t + r, cb = InitialSync True\<rparr>])"

definition listening :: "world \<Rightarrow> nat \<Rightarrow> nat \<Rightarrow> bool" where
  "listening u k r =
     (isMenuOpen u \<and> 0 < listeners u \<and> k < next_timer u \<and>
      (\<forall>j. scrollTimeout u = Some j \<longrightarrow> j \<noteq> k \<and> j < next_timer u) \<and>
      (\<exists>D. timers u = syncs k (now u) r @ D \<and>
           (D = [] \<or> (\<exists>t. D = [t] \<and> scrollTimeout u = Some (tid t)))))"

definition armed :: "world \<Rightarrow> int \<Rightarrow> nat \<Rightarrow> nat \<Rightarrow> bool" where
  "armed u y k r =
     (isMenuOpen u \<and> 0 < listeners u \<and> persp_scrollTop u = y \<and>
      (\<exists>i. k < i \<and> i < next_timer u \<and> scrollTimeout u = Some i \<and>
           timers u =
             syncs k (now u) r @ [\<lparr>tid = i, due = now u + 16, cb = ScrollRefresh y\<rparr>]))"

definition settled :: "world \<Rightarrow> nat \<Rightarrow> nat \<Rightarrow> bool" where
  "settled u k r = (listening u k r \<and> timers u = syncs k (now u) r)"

definition traced :: "env \<Rightarrow> bool \<Rightarrow> world \<Rightarrow> call list \<Rightarrow> bool" where
  "traced e R u cs =
     (refreshes (calls u) = refreshes cs \<and> (R \<longrightarrow> redefinable e u \<and> calls u = cs))"

subsection \<open>What a pass over the media keeps\<close>

text \<open>
  \<open>static\<close> is what no step of a pass changes in an element: its place in the tree,
  its geometry, its attributes and its classes other than \<^verbatim>\<open>scroll-fx-in-range\<close>.
  \<open>touch\<close> is what one step does to one element, given whether the wrapper of the
  step is in the viewport and whether the element is the video or the wrapper of the
  step.
\<close>

definition static ::
  "element \<Rightarrow> bool \<times> nat option \<times> int \<times> int \<times> string option \<times> bool \<times> bool \<times> string list" where
  "static x = (is_video x, parent x, offset_top x, outerHeight x, data_src x, autoplay x,
               play_allowed x, removeClass [''scroll-fx-in-range''] (el_classes x))"

definition touch :: "bool \<Rightarrow> bool \<Rightarrow> bool \<Rightarrow> element \<Rightarrow> element" where
  "touch inview is_v is_c x =
     (if inview
      then (if is_v then (if is_c then start (reveal (stage x)) else start (stage x))
            else if is_c then reveal x else x)
      else (if is_c then fade x else x))"

text \<open>The fields of an element that belong to its media, and what lines 132 to 135
  and lines 142 to 144 do to them.\<close>

type_synonym media_fields = "string option \<times> bool \<times> bool \<times> string \<times> nat \<times> nat \<times> bool"

definition media_part :: "element \<Rightarrow> media_fields" where
  "media_part x = (data_src x, autoplay x, play_allowed x, src x, load_calls x, play_calls x, paused x)"

definition stage_fields :: "media_fields \<Rightarrow> media_fields" where
  "stage_fields m =
     (case m of
        (ds, ap, pa, s, l, p, z) \<Rightarrow>
          (case ds of
             None \<Rightarrow> m
           | Some d \<Rightarrow> if s = [] then (ds, ap, pa, d, l + 1, p, True) else m))"

definition start_fields :: "media_fields \<Rightarrow> media_fields" where
  "start_fields m =
     (case m of
        (ds, ap, pa, s, l, p, z) \<Rightarrow> if ap \<and> z then (ds, ap, pa, s, l, p + 1, \<not> pa) else m)"

text \<open>What the steps before the one at \<open>i\<close> keep of a video, and what the step at
  \<open>i\<close> establishes and the later ones keep, as properties of the part of an element
  that belongs to its media.\<close>

definition video_before :: "media_fields \<Rightarrow> media_fields \<Rightarrow> bool" where
  "video_before old m =
     (case (old, m) of
        ((ds0, ap0, pa0, s0, l0, p0, z0), (ds, ap, pa, s, l, p, z)) \<Rightarrow>
          ds = ds0 \<and> ap = ap0 \<and>
          (s = s0 \<or> (s0 = [] \<and> ds0 = Some s)) \<and> l0 \<le> l \<and> (s \<noteq> s0 \<longrightarrow> l0 < l) \<and>
          p0 \<le> p \<and> (z0 \<and> \<not> z \<longrightarrow> p0 < p))"

definition video_after :: "media_fields \<Rightarrow> media_fields \<Rightarrow> bool" where
  "video_after old m =
     (case (old, m) of
        ((ds0, ap0, pa0, s0, l0, p0, z0), (ds, ap, pa, s, l, p, z)) \<Rightarrow>
          ds = ds0 \<and> ap = ap0 \<and>
          s = (case ds0 of None \<Rightarrow> s0 | Some d \<Rightarrow> if s0 = [] then d else s0) \<and>
          (ds0 \<noteq> None \<and> s0 = [] \<longrightarrow> l0 < l) \<and> l0 \<le> l \<and>
          (ap0 \<and> z0 \<longrightarrow> p0 < p) \<and> p0 \<le> p)"

text \<open>Passes one after the other. Before each pass the layout is read anew (the
  geometry of every element is given by \<open>geo\<close>); the selection
  \<^verbatim>\<open>scrollContainer\<close> may differ from pass to pass.\<close>

definition relayout :: "(nat \<Rightarrow> int \<times> int) \<Rightarrow> element list \<Rightarrow> element list" where
  "relayout geo els =
     map (\<lambda>k. (els ! k)\<lparr>offset_top := fst (geo k), outerHeight := snd (geo k)\<rparr>) [0..<length els]"

fun passes :: "((nat \<Rightarrow> int \<times> int) \<times> box option) list \<Rightarrow> element list \<Rightarrow> element list" where
  "passes [] els = els"
| "passes ((geo, sc) # ps) els = passes ps (fst (triggerVideoEffects sc (relayout geo els)))"

subsection \<open>An example page\<close>

text \<open>A page at rest, scrolled to 500, with the container as the repository's markup
  has it, all three hooks present (the lazy-load check throws) and a tagged wrapper
  around a video with a staged source.\<close>

definition env0 :: env where
  "env0 = \<lparr>scrollFX = Some (\<lambda>y. False), lazySizes_checkElems = Some (\<lambda>y. True),
           universalParallax_refresh = Some (\<lambda>y. False),
           Window_prototype_scrollY = None, Window_prototype_pageYOffset = None,
           css = (\<lambda>decls st. Some ''transform: none'')\<rparr>"

definition wrapper0 :: element where
  "wrapper0 = \<lparr>is_video = False, parent = None,
     el_classes = [''video-bg-container'', ''scroll-fx-in-fade''],
     offset_top = 100, outerHeight = 200, opacity = None, data_src = None, src = [],
     autoplay = False, paused = True, play_allowed = True, load_calls = 0, play_calls = 0\<rparr>"

definition video0 :: element where
  "video0 = \<lparr>is_video = True, parent = Some 0,
     el_classes = [],
     offset_top = 100, outerHeight = 200, opacity = None, data_src = Some ''clip.mp4'', src = [],
     autoplay = True, paused = True, play_allowed = True, load_calls = 0, play_calls = 0\<rparr>"

definition page0 :: world where
  "page0 = \<lparr>isMenuOpen = False, isTransitioning = False, storedScrollPosition = 0,
     now = 0, next_timer = 1, timers = [],
     persp_classes = [''perspective'', ''effect-rotate-left''], persp_style = None,
     persp_scrollTop = 0, persp_height = 800, persp_offset_top = 0,
     scrollTimeout = None, listeners = 0, container_style = Some ''color: red'',
     nav_vis = False, doc_scroll = 500,
     scrollY_own = Some (Accessor True), pageYOffset_own = Some (Accessor True),
     docScrollTop_own = None, hook_calls = [], hook_errors = [], uncaught = [], calls = [],
     media = [wrapper0, video0]\<rparr>"


definition box0 :: box where
  "box0 = \<lparr>box_scrollTop = 0, box_height = 800, box_offset_top = 0\<rparr>"

text \<open>A wrapper 3000 px high that fades in, from the top of the page; inside it, 2000 px
  down, a wrapper that fades out; inside that one a video with a staged source.\<close>

definition nested :: "element list" where
  "nested =
     [wrapper0\<lparr>offset_top := 0, outerHeight := 3000\<rparr>,
      wrapper0\<lparr>parent := Some 0, el_classes := [''video-bg-container'', ''scroll-fx-out-fade''],
               offset_top := 2000, outerHeight := 400\<rparr>,
      video0\<lparr>parent := Some 1, offset_top := 2000, outerHeight := 400\<rparr>]"

text \<open>A tagged video outside every wrapper, then the wrapper and the video of the
  example page.\<close>

definition bare :: "element list" where
  "bare =
     [video0\<lparr>parent := None, el_classes := [''scroll-fx-in-fade'']\<rparr>,
      wrapper0, video0\<lparr>parent := Some 1\<rparr>]"

section \<open>Theorems\<close>

subsection \<open>The scroll handler when the menu is not open\<close>

lemma scroll_handler_closed: "\<not> isMenuOpen w \<Longrightarrow> scroll_handler w = w"
  by (simp add: scroll_handler_def)

lemma funpow_fixed: "f w = w \<Longrightarrow> (f ^^ n) w = w"
  by (induction n) auto

text \<open>
  C8. A scroll event delivered while the menu is not open does nothing: the handler
  returns the world as it is (no timer scheduled or cancelled, no effect run), whatever
  the number of handlers bound, so the event leaves only the new scroll offset. The
  check is the handler's own, made at each event: \<^verbatim>\<open>closeMenu\<close>, once it passes its
  guard, clears \<^verbatim>\<open>isMenuOpen\<close> and unbinds the handlers, and the handler does nothing
  in the world it leaves.
\<close>

theorem scroll_listener_inert:
  "(\<not> isMenuOpen w \<longrightarrow>
      scroll_handler w = w \<and> apply_event e w (ScrollTo y) = w\<lparr>persp_scrollTop := y\<rparr>) \<and>
   (\<not> isTransitioning w \<longrightarrow>
      \<not> isMenuOpen (closeMenu w) \<and> listeners (closeMenu w) = 0 \<and>
      scroll_handler (closeMenu w) = closeMenu w)"
proof -
  have a: "apply_event e w (ScrollTo y) = w\<lparr>persp_scrollTop := y\<rparr>" if "\<not> isMenuOpen w"
  proof -
    have "scroll_handler (w\<lparr>persp_scrollTop := y\<rparr>) = w\<lparr>persp_scrollTop := y\<rparr>"
      using that by (simp add: scroll_handler_def)
    then show ?thesis
      by (simp add: apply_event_def deliver_scroll_def funpow_fixed)
  qed
  have b: "\<not> isMenuOpen (closeMenu w) \<and> listeners (closeMenu w) = 0" if "\<not> isTransitioning w"
    using that by (simp add: closeMenu_def Let_def setTimeout_def)
  show ?thesis using a b by (simp add: scroll_handler_closed)
qed


theorem scroll_listener_inert_witness:
  "\<not> isMenuOpen (page0\<lparr>listeners := 2\<rparr>) \<and>
   apply_event env0 (page0\<lparr>listeners := 2\<rparr>) (ScrollTo 40)
     = page0\<lparr>listeners := 2, persp_scrollTop := 40\<rparr> \<and>
   \<not> isTransitioning page0 \<and> scroll_handler (closeMenu page0) = closeMenu page0"
  using scroll_listener_inert [of "page0\<lparr>listeners := 2\<rparr>" env0 40]
    scroll_listener_inert [of page0 env0 40]
  by (simp add: page0_def)

subsection \<open>The guard on transitions\<close>

lemma guard_same: "isTransitioning w \<Longrightarrow> openMenu e w = w \<and> closeMenu w = w \<and> toggle e w = w \<and> click_page w = w"
  by (simp add: openMenu_def closeMenu_def toggle_def click_page_def)

lemma guard_schedule:
  assumes "guard_inv w" "\<not> isTransitioning w"
    and "timers w' = timers w @ [\<lparr>tid = next_timer w, due = d, cb = c\<rparr>]"
    and "next_timer w' = next_timer w + 1" "scrollTimeout w' = scrollTimeout w"
    and "isTransitioning w'" "is_transition c"
  shows "guard_inv w'"
  using assms
  by (auto simp: guard_inv_def timers_ok_def in_flight_def split: option.splits)


lemma closeMenu_fields:
  "\<not> isTransitioning w \<Longrightarrow>
   timers (closeMenu w) = timers w @ [\<lparr>tid = next_timer w, due = now w + 400, cb = CloseStrip\<rparr>] \<and>
   next_timer (closeMenu w) = next_timer w + 1 \<and>
   scrollTimeout (closeMenu w) = scrollTimeout w \<and> isTransitioning (closeMenu w)"
  by (simp add: closeMenu_def Let_def setTimeout_def)

lemma openMenu_fields:
  "\<not> isTransitioning w \<Longrightarrow>
   timers (openMenu e w) = timers w @ [\<lparr>tid = next_timer w, due = now w + 50, cb = OpenAnimate\<rparr>] \<and>
   next_timer (openMenu e w) = next_timer w + 1 \<and>
   scrollTimeout (openMenu e w) = scrollTimeout w \<and> isTransitioning (openMenu e w)"
  by (simp add: openMenu_def Let_def setTimeout_def)

lemma guard_closeMenu: "guard_inv w \<Longrightarrow> guard_inv (closeMenu w)"
proof (cases "isTransitioning w")
  case True
  assume "guard_inv w"
  with True show ?thesis by (simp add: closeMenu_def)
next
  case False
  assume g: "guard_inv w"
  from closeMenu_fields [OF False]
  show ?thesis
    by (intro guard_schedule [OF g False, where c = CloseStrip and d = "now w + 400"]) simp_all
qed

lemma guard_openMenu: "guard_inv w \<Longrightarrow> guard_inv (openMenu e w)"
proof (cases "isTransitioning w")
  case True
  assume "guard_inv w"
  with True show ?thesis by (simp add: openMenu_def)
next
  case False
  assume g: "guard_inv w"
  from openMenu_fields [OF False, of e]
  show ?thesis
    by (intro guard_schedule [OF g False, where c = OpenAnimate and d = "now w + 50"]) simp_all
qed

lemma filter_transition_clear:
  "\<forall>t \<in> set ts. tid t = k \<longrightarrow> \<not> is_transition (cb t) \<Longrightarrow>
   filter (\<lambda>t. is_transition (cb t)) (filter (\<lambda>t. tid t \<noteq> k) ts)
     = filter (\<lambda>t. is_transition (cb t)) ts"
  by (induction ts) auto

lemma scroll_handler_fields:
  "isMenuOpen w \<Longrightarrow>
   timers (scroll_handler w) =
     (case scrollTimeout w of None \<Rightarrow> timers w
      | Some k \<Rightarrow> filter (\<lambda>t. tid t \<noteq> k) (timers w))
     @ [\<lparr>tid = next_timer w, due = now w + 16, cb = ScrollRefresh (persp_scrollTop w)\<rparr>] \<and>
   next_timer (scroll_handler w) = next_timer w + 1 \<and>
   scrollTimeout (scroll_handler w) = Some (next_timer w) \<and>
   isTransitioning (scroll_handler w) = isTransitioning w"
  by (cases "scrollTimeout w") (simp_all add: scroll_handler_def Let_def setTimeout_def clearTimeout_def)

lemma guard_debounce:
  assumes g: "guard_inv w"
    and ts: "timers w' = ts @ [\<lparr>tid = next_timer w, due = d, cb = c\<rparr>]"
    and sub: "set ts \<subseteq> set (timers w)" and dis: "distinct (map tid ts)"
    and same: "filter (\<lambda>t. is_transition (cb t)) ts = filter (\<lambda>t. is_transition (cb t)) (timers w)"
    and rest: "next_timer w' = next_timer w + 1" "scrollTimeout w' = Some (next_timer w)"
      "isTransitioning w' = isTransitioning w" "\<not> is_transition c"
  shows "guard_inv w'"
proof -
  have lt: "\<forall>t \<in> set ts. tid t < next_timer w"
    using g sub by (auto simp: guard_inv_def timers_ok_def)
  have "in_flight w' = in_flight w"
    using same rest by (simp add: in_flight_def ts)
  moreover have "timers_ok w'"
    using lt dis rest by (auto simp: timers_ok_def ts)
  ultimately show ?thesis using g rest by (simp add: guard_inv_def)
qed

lemma guard_scroll_handler: "guard_inv w \<Longrightarrow> guard_inv (scroll_handler w)"
proof (cases "isMenuOpen w")
  case False
  assume "guard_inv w"
  with False show ?thesis by (simp add: scroll_handler_def)
next
  case True
  assume g: "guard_inv w"
  define ts where "ts = (case scrollTimeout w of None \<Rightarrow> timers w
      | Some k \<Rightarrow> filter (\<lambda>t. tid t \<noteq> k) (timers w))"
  note f = scroll_handler_fields [OF True, folded ts_def]
  have sub: "set ts \<subseteq> set (timers w)"
    by (auto simp: ts_def split: option.splits)
  have dis: "distinct (map tid ts)"
    using g by (auto simp: ts_def guard_inv_def timers_ok_def distinct_map_filter split: option.splits)
  have same: "filter (\<lambda>t. is_transition (cb t)) ts = filter (\<lambda>t. is_transition (cb t)) (timers w)"
  proof (cases "scrollTimeout w")
    case None
    then show ?thesis by (simp add: ts_def)
  next
    case (Some k)
    have "\<forall>t \<in> set (timers w). tid t = k \<longrightarrow> \<not> is_transition (cb t)"
      using g Some by (simp add: guard_inv_def timers_ok_def)
    from filter_transition_clear [OF this] Some show ?thesis
      by (simp only: ts_def option.case)
  qed
  from f have f1: "timers (scroll_handler w) =
      ts @ [\<lparr>tid = next_timer w, due = now w + 16, cb = ScrollRefresh (persp_scrollTop w)\<rparr>]"
    and f2: "next_timer (scroll_handler w) = next_timer w + 1"
    and f3: "scrollTimeout (scroll_handler w) = Some (next_timer w)"
    and f4: "isTransitioning (scroll_handler w) = isTransitioning w"
    by blast+
  show ?thesis
    by (rule guard_debounce [OF g f1 sub dis same f2 f3 f4]) simp
qed

lemma guard_append:
  assumes "timers_ok w"
    and "timers w' = timers w @ [\<lparr>tid = next_timer w, due = d, cb = c\<rparr>]"
    and "next_timer w' = next_timer w + 1" "scrollTimeout w' = scrollTimeout w"
    and "in_flight w + (if is_transition c then 1 else 0) = (if isTransitioning w' then 1 else 0)"
  shows "guard_inv w'"
proof -
  have "in_flight w' = in_flight w + (if is_transition c then 1 else 0)"
    using assms(2) by (simp add: in_flight_def)
  moreover have "timers_ok w'"
    using assms(1-4) by (auto simp: timers_ok_def split: option.splits)
  ultimately show ?thesis using assms(5) by (simp add: guard_inv_def)
qed

lemma guard_frame:
  assumes "timers_ok w" and "timers w' = timers w" and "next_timer w' = next_timer w"
    and "scrollTimeout w' = scrollTimeout w"
    and "in_flight w = (if isTransitioning w' then 1 else 0)"
  shows "guard_inv w'"
  using assms by (auto simp: guard_inv_def timers_ok_def in_flight_def split: option.splits)

lemma guard_cong:
  assumes "guard_inv w" and "timers w' = timers w" and "next_timer w' = next_timer w"
    and "scrollTimeout w' = scrollTimeout w" and "isTransitioning w' = isTransitioning w"
  shows "guard_inv w'"
  using assms by (intro guard_frame [of w]) (simp_all add: guard_inv_def)

lemma close_strip_fields:
  "timers (close_strip e w) =
     timers w @ [\<lparr>tid = next_timer w, due = now w + 100,
                  cb = CloseRestore (attr_or_empty (persp_style w))
                         (attr_or_empty (container_style w))\<rparr>] \<and>
   next_timer (close_strip e w) = next_timer w + 1 \<and>
   scrollTimeout (close_strip e w) = scrollTimeout w \<and>
   isTransitioning (close_strip e w) = isTransitioning w"
  by (simp add: close_strip_def Let_def setTimeout_def window_scrollTo_def
      set_documentElement_scrollTop_def split: option.splits descriptor.splits)

lemma close_restore_fields:
  "timers (close_restore e ps cs w) = timers w \<and>
   next_timer (close_restore e ps cs w) = next_timer w \<and>
   scrollTimeout (close_restore e ps cs w) = scrollTimeout w \<and>
   \<not> isTransitioning (close_restore e ps cs w)"
  by (simp add: close_restore_def Let_def window_scrollTo_def)

lemma open_animate_fields:
  "timers (open_animate w) =
     timers w @ [\<lparr>tid = next_timer w, due = now w + 100, cb = OpenScroll\<rparr>] \<and>
   next_timer (open_animate w) = next_timer w + 1 \<and>
   scrollTimeout (open_animate w) = scrollTimeout w \<and>
   isTransitioning (open_animate w) = isTransitioning w"
  by (simp add: open_animate_def Let_def setTimeout_def)

lemma open_scroll_fields:
  "timers (open_scroll w) =
     timers w @ [\<lparr>tid = next_timer w, due = now w + 200, cb = OpenSetup\<rparr>] \<and>
   next_timer (open_scroll w) = next_timer w + 1 \<and>
   scrollTimeout (open_scroll w) = scrollTimeout w \<and>
   isTransitioning (open_scroll w) = isTransitioning w"
  by (simp add: open_scroll_def Let_def setTimeout_def)

lemma open_setup_fields:
  "timers (open_setup w) =
     timers w @ [\<lparr>tid = next_timer w, due = now w + 200, cb = InitialSync (modalview w)\<rparr>] \<and>
   next_timer (open_setup w) = next_timer w + 1 \<and>
   scrollTimeout (open_setup w) = scrollTimeout w \<and>
   \<not> isTransitioning (open_setup w)"
  by (simp add: open_setup_def setupScrollEffects_def Let_def setTimeout_def)

lemma call_hooks_fields:
  "next_timer (call_hooks e w) = next_timer w \<and> scrollTimeout (call_hooks e w) = scrollTimeout w \<and>
   isTransitioning (call_hooks e w) = isTransitioning w"
  by (simp add: call_hooks_def call_hook_def split: option.splits)

lemma try_block_fields:
  "next_timer (fst (try_block e st w)) = next_timer w \<and>
   scrollTimeout (fst (try_block e st w)) = scrollTimeout w \<and>
   isTransitioning (fst (try_block e st w)) = isTransitioning w"
  by (simp add: try_block_def call_hooks_fields split: sum.splits)

lemma triggerScrollEffects_fields:
  "next_timer (fst (triggerScrollEffects e st w)) = next_timer w \<and>
   scrollTimeout (fst (triggerScrollEffects e st w)) = scrollTimeout w \<and>
   isTransitioning (fst (triggerScrollEffects e st w)) = isTransitioning w"
  using try_block_fields [of e st "w\<lparr>calls := calls w @ [TSE st]\<rparr>"]
  by (auto simp: triggerScrollEffects_def Let_def split: prod.splits)

lemma refresh_fields:
  "timers (refresh e st sc w) = timers w \<and>
   next_timer (refresh e st sc w) = next_timer w \<and>
   scrollTimeout (refresh e st sc w) = scrollTimeout w \<and>
   isTransitioning (refresh e st sc w) = isTransitioning w"
  using triggerScrollEffects_fields [of e st w] timers_triggerScrollEffects [of e st w]
  by (auto simp: refresh_def video_pass_def split: prod.splits option.splits)

lemma in_flight_remove:
  "distinct (map tid ts) \<Longrightarrow> t \<in> set ts \<Longrightarrow>
   length (filter (\<lambda>u. is_transition (cb u)) (filter (\<lambda>u. tid u \<noteq> tid t) ts))
     + (if is_transition (cb t) then 1 else 0)
   = length (filter (\<lambda>u. is_transition (cb u)) ts)"
proof (induction ts)
  case Nil
  then show ?case by simp
next
  case (Cons a ts)
  show ?case
  proof (cases "a = t")
    case True
    with Cons.prems have "\<forall>u \<in> set ts. tid u \<noteq> tid t"
      by (auto simp: image_iff)
    then have "filter (\<lambda>u. tid u \<noteq> tid t) ts = ts"
      by (simp add: filter_id_conv)
    with True show ?thesis by simp
  next
    case False
    with Cons.prems have "t \<in> set ts" "tid a \<noteq> tid t" "distinct (map tid ts)"
      by (auto simp: image_iff)
    with Cons.IH show ?thesis by simp
  qed
qed

lemma guard_remove:
  assumes g: "guard_inv w" and t: "t \<in> set (timers w)"
  defines "u \<equiv> w\<lparr>timers := filter (\<lambda>v. tid v \<noteq> tid t) (timers w), now := max (now w) (due t)\<rparr>"
  shows "timers_ok u"
    and "in_flight u + (if is_transition (cb t) then 1 else 0) = (if isTransitioning u then 1 else 0)"
proof -
  show "timers_ok u"
    using g by (auto simp: u_def guard_inv_def timers_ok_def distinct_map_filter split: option.splits)
  have "distinct (map tid (timers w))" using g by (simp add: guard_inv_def timers_ok_def)
  from in_flight_remove [OF this t]
  show "in_flight u + (if is_transition (cb t) then 1 else 0) = (if isTransitioning u then 1 else 0)"
    using g by (simp add: u_def in_flight_def guard_inv_def)
qed

lemma guard_run_callback:
  assumes ok: "timers_ok u"
    and n: "in_flight u + (if is_transition c then 1 else 0) = (if isTransitioning u then 1 else 0)"
  shows "guard_inv (run_callback e c u)"
proof (cases c)
  case CloseStrip
  with n have "in_flight u + 1 = (if isTransitioning (close_strip e u) then 1 else 0)"
    by (simp add: close_strip_fields)
  with close_strip_fields [of e u] CloseStrip show ?thesis
    by (intro guard_append [OF ok, where d = "now u + 100"
          and c = "CloseRestore (attr_or_empty (persp_style u)) (attr_or_empty (container_style u))"])
      (simp_all add: run_callback_def)
next
  case (CloseRestore ps cs)
  with n have "in_flight u = 0" by (simp split: if_splits)
  with close_restore_fields [of e ps cs u] CloseRestore show ?thesis
    by (intro guard_frame [OF ok]) (simp_all add: run_callback_def)
next
  case OpenAnimate
  with n have "in_flight u + 1 = (if isTransitioning (open_animate u) then 1 else 0)"
    by (simp add: open_animate_fields)
  with open_animate_fields [of u] OpenAnimate show ?thesis
    by (intro guard_append [OF ok, where d = "now u + 100" and c = OpenScroll])
      (simp_all add: run_callback_def)
next
  case OpenScroll
  with n have "in_flight u + 1 = (if isTransitioning (open_scroll u) then 1 else 0)"
    by (simp add: open_scroll_fields)
  with open_scroll_fields [of u] OpenScroll show ?thesis
    by (intro guard_append [OF ok, where d = "now u + 200" and c = OpenSetup])
      (simp_all add: run_callback_def)
next
  case OpenSetup
  with n have "in_flight u = 0" by (simp split: if_splits)
  with open_setup_fields [of u] OpenSetup show ?thesis
    by (intro guard_append [OF ok, where d = "now u + 200" and c = "InitialSync (modalview u)"])
      (simp_all add: run_callback_def)
next
  case (ScrollRefresh st)
  with n refresh_fields show ?thesis
    by (intro guard_frame [OF ok]) (simp_all add: run_callback_def)
next
  case (InitialSync sel)
  with n refresh_fields show ?thesis
    by (intro guard_frame [OF ok]) (simp_all add: run_callback_def)
qed

lemma guard_fire: "guard_inv w \<Longrightarrow> t \<in> set (timers w) \<Longrightarrow> guard_inv (fire e t w)"
  unfolding fire_def by (rule guard_run_callback [OF guard_remove])

lemma guard_run_until: "guard_inv w \<Longrightarrow> guard_inv (run_until e T w)"
proof (induction e T w rule: run_until.induct)
  case (1 e T w)
  show ?case
  proof (cases "next_due T (timers w)")
    case None
    have "guard_inv (w\<lparr>now := max (now w) T\<rparr>)"
      by (rule guard_cong [OF "1.prems"]) simp_all
    with None show ?thesis
      by (simp add: run_until.simps [of e T w])
  next
    case (Some t)
    then have "t \<in> set (timers w)" using next_due_Some by blast
    with "1.prems" have "guard_inv (fire e t w)" by (rule guard_fire)
    with "1.IH" [OF Some] Some show ?thesis
      by (simp add: run_until.simps [of e T w])
  qed
qed

lemma guard_funpow: "guard_inv w \<Longrightarrow> guard_inv ((scroll_handler ^^ n) w)"
  by (induction n) (auto intro: guard_scroll_handler)

lemma guard_apply_event: "guard_inv w \<Longrightarrow> guard_inv (apply_event e w ev)"
proof (cases ev)
  case (ScrollTo y)
  assume g: "guard_inv w"
  then have "guard_inv (w\<lparr>persp_scrollTop := y\<rparr>)"
    by (rule guard_cong) simp_all
  then show ?thesis
    using ScrollTo by (simp add: apply_event_def deliver_scroll_def guard_funpow)
next
  case (DocScroll y)
  assume "guard_inv w"
  then have "guard_inv (w\<lparr>doc_scroll := y\<rparr>)"
    by (rule guard_cong) simp_all
  then show ?thesis
    using DocScroll by (simp add: apply_event_def)
qed (auto simp: apply_event_def toggle_def click_page_def
      intro: guard_closeMenu guard_openMenu guard_run_until)

lemma guard_run_events: "guard_inv w \<Longrightarrow> guard_inv (run_events e evs w)"
  unfolding run_events_def by (induction evs arbitrary: w) (auto intro: guard_apply_event)

lemma guard_fresh: "fresh w \<Longrightarrow> guard_inv w"
  by (simp add: fresh_def guard_inv_def timers_ok_def in_flight_def)

text \<open>
  C1. From a fresh page, after any sequence of clicks, scroll events and waits: a
  transition is in flight exactly when \<^verbatim>\<open>isTransitioning\<close> is set, and then it is the
  only one; and while it is set, \<^verbatim>\<open>openMenu\<close>, \<^verbatim>\<open>closeMenu\<close>, the toggle and the click on
  the page return the world unchanged: no variable, class or scroll offset changes, no
  timer is scheduled, and the pending phase of the transition in flight stays as it is.
\<close>

theorem reentrancy_guard:
  assumes "fresh w0"
  shows "in_flight (run_events e evs w0) = (if isTransitioning (run_events e evs w0) then 1 else 0) \<and>
    (isTransitioning (run_events e evs w0) \<longrightarrow>
       openMenu e (run_events e evs w0) = run_events e evs w0 \<and>
       closeMenu (run_events e evs w0) = run_events e evs w0 \<and>
       toggle e (run_events e evs w0) = run_events e evs w0 \<and>
       click_page (run_events e evs w0) = run_events e evs w0)"
  using guard_run_events [OF guard_fresh [OF assms], of e evs] guard_same [of "run_events e evs w0" e]
  by (simp add: guard_inv_def)

theorem reentrancy_guard_witness:
  "fresh page0 \<and>
   isTransitioning (run_events env0 [ClickToggle, Wait 20] page0) \<and>
   in_flight (run_events env0 [ClickToggle, Wait 20] page0) = 1 \<and>
   toggle env0 (run_events env0 [ClickToggle, Wait 20] page0)
     = run_events env0 [ClickToggle, Wait 20] page0 \<and>
   closeMenu (run_events env0 [ClickToggle, Wait 20] page0)
     = run_events env0 [ClickToggle, Wait 20] page0"
proof -
  have f: "fresh page0"
    by (simp add: fresh_def page0_def)
  have t: "isTransitioning (run_events env0 [ClickToggle, Wait 20] page0)"
    by code_simp
  show ?thesis
    using reentrancy_guard [OF f, of env0 "[ClickToggle, Wait 20]"] f t by simp
qed

subsection \<open>triggerScrollEffects: isolation of the hooks and restoration\<close>

lemma restore_override: "restore_property (Some (DataValue y)) d = Some d"
  by (simp add: restore_property_def defineProperty_def configurable_def)

lemma restore_untouched:
  "restore_property own (original_descriptor own proto lit) = Some (original_descriptor own proto lit)"
  by (cases own) (simp_all add: restore_property_def defineProperty_def original_descriptor_def)

lemma defineProperty_Inr: "defineProperty own d = Inr x \<Longrightarrow> x = Some d"
  by (auto simp: defineProperty_def split: option.splits if_splits)

lemma call_hooks_log:
  assumes "scrollY_own w = Some (DataValue y)"
  shows "hook_calls (call_hooks e w) = hook_calls w @ map (\<lambda>n. (n, y)) (present_hooks e)"
    and "hook_errors (call_hooks e w) = hook_errors w @ throwing_hooks e y"
    and "scrollY_own (call_hooks e w) = scrollY_own w"
    and "pageYOffset_own (call_hooks e w) = pageYOffset_own w"
    and "docScrollTop_own (call_hooks e w) = docScrollTop_own w"
    and "doc_scroll (call_hooks e w) = doc_scroll w"
  using assms
  by (auto simp: call_hooks_def call_hook_def present_hooks_def throwing_hooks_def hook_of_def
      window_scrollY_def lookup_def read_descriptor_def split: option.splits)

text \<open>
  C3. Whatever the hooks do, an invocation of \<^verbatim>\<open>triggerScrollEffects\<close> ends with each
  of the three properties defined, on its object, by the descriptor that the function
  saved as the original one: the override does not outlive the call. When the three
  redefinitions go through, every hook that is present is invoked once, in order, reading
  the overridden offset, whether or not an earlier hook has thrown; a hook that throws
  only adds its name to the errors logged. When a redefinition throws, no hook is invoked
  (so none throws), and the exception leaves the function after the restoration. The
  document is not scrolled.
\<close>

theorem hook_isolation:
  assumes "triggerScrollEffects e y w = (w', thrown)"
  shows "scrollY_own w' =
           Some (original_descriptor (scrollY_own w) (Window_prototype_scrollY e) Literal) \<and>
         pageYOffset_own w' =
           Some (original_descriptor (pageYOffset_own w) (Window_prototype_pageYOffset e) Literal) \<and>
         docScrollTop_own w' =
           Some (original_descriptor (docScrollTop_own w) Element_prototype_scrollTop Literal) \<and>
         (thrown = None \<longleftrightarrow> overridable y w) \<and>
         hook_calls w' =
           hook_calls w @ (if overridable y w then map (\<lambda>n. (n, y)) (present_hooks e) else []) \<and>
         hook_errors w' = hook_errors w @ (if overridable y w then throwing_hooks e y else []) \<and>
         doc_scroll w' = doc_scroll w"
proof -
  let ?w = "w\<lparr>calls := calls w @ [TSE y]\<rparr>"
  obtain w1 where tb: "try_block e y ?w = (w1, thrown)"
    using assms by (auto simp: triggerScrollEffects_def Let_def split: prod.splits)
  have w': "w' = w1\<lparr>scrollY_own := restore_property (scrollY_own w1)
              (original_descriptor (scrollY_own w) (Window_prototype_scrollY e) Literal),
            pageYOffset_own := restore_property (pageYOffset_own w1)
              (original_descriptor (pageYOffset_own w) (Window_prototype_pageYOffset e) Literal),
            docScrollTop_own := restore_property (docScrollTop_own w1)
              (original_descriptor (docScrollTop_own w) Element_prototype_scrollTop Literal)\<rparr>"
    using assms tb by (simp add: triggerScrollEffects_def Let_def)
  show ?thesis
  proof (cases "defineProperty (scrollY_own w) (DataValue y)")
    case (Inl err)
    then have "w1 = ?w" "thrown = Some err" using tb by (simp_all add: try_block_def)
    with Inl show ?thesis
      by (simp add: w' restore_untouched overridable_def)
  next
    case y1: (Inr sy)
    then have sy: "sy = Some (DataValue y)" by (rule defineProperty_Inr)
    show ?thesis
    proof (cases "defineProperty (pageYOffset_own w) (DataValue y)")
      case (Inl err)
      then have "w1 = ?w\<lparr>scrollY_own := sy\<rparr>" "thrown = Some err"
        using tb y1 by (simp_all add: try_block_def)
      with Inl y1 sy show ?thesis
        by (simp add: w' restore_untouched restore_override overridable_def)
    next
      case y2: (Inr sp)
      then have sp: "sp = Some (DataValue y)" by (rule defineProperty_Inr)
      show ?thesis
      proof (cases "defineProperty (docScrollTop_own w) (DataValue y)")
        case (Inl err)
        then have "w1 = ?w\<lparr>scrollY_own := sy, pageYOffset_own := sp\<rparr>" "thrown = Some err"
          using tb y1 y2 by (simp_all add: try_block_def)
        with Inl y1 y2 sy sp show ?thesis
          by (simp add: w' restore_untouched restore_override overridable_def)
      next
        case y3: (Inr sd)
        then have sd: "sd = Some (DataValue y)" by (rule defineProperty_Inr)
        let ?o = "?w\<lparr>scrollY_own := sy, pageYOffset_own := sp, docScrollTop_own := sd\<rparr>"
        have "w1 = call_hooks e ?o" "thrown = None"
          using tb y1 y2 y3 by (simp_all add: try_block_def)
        moreover have "scrollY_own ?o = Some (DataValue y)" by (simp add: sy)
        note call_hooks_log [OF this, of e]
        ultimately show ?thesis
          using y1 y2 y3 sy sp sd
          by (simp add: w' restore_override overridable_def)
      qed
    qed
  qed
qed

theorem hook_isolation_witness:
  "hook_calls (fst (triggerScrollEffects env0 (Some 120) page0)) =
     [(ScrollFX, Some 120), (LazySizes, Some 120), (UniversalParallax, Some 120)] \<and>
   hook_errors (fst (triggerScrollEffects env0 (Some 120) page0)) = [LazySizes] \<and>
   snd (triggerScrollEffects env0 (Some 120) page0) = None \<and>
   scrollY_own (fst (triggerScrollEffects env0 (Some 120) page0)) = Some (Accessor True) \<and>
   pageYOffset_own (fst (triggerScrollEffects env0 (Some 120) page0)) = Some (Accessor True) \<and>
   docScrollTop_own (fst (triggerScrollEffects env0 (Some 120) page0)) = Some (Accessor True)"
  using hook_isolation [of env0 "Some 120" page0
      "fst (triggerScrollEffects env0 (Some 120) page0)"
      "snd (triggerScrollEffects env0 (Some 120) page0)"]
  by (simp add: page0_def env0_def overridable_def defineProperty_def configurable_def
      present_hooks_def throwing_hooks_def hook_of_def original_descriptor_def
      Element_prototype_scrollTop_def)

subsection \<open>closeMenu: the final phase\<close>


lemma reads_style:
  "window_scrollY e (w\<lparr>persp_style := a\<rparr>) = window_scrollY e w"
  "window_pageYOffset e (w\<lparr>persp_style := a\<rparr>) = window_pageYOffset e w"
  "window_scrollY e (w\<lparr>container_style := a\<rparr>) = window_scrollY e w"
  "window_pageYOffset e (w\<lparr>container_style := a\<rparr>) = window_pageYOffset e w"
  by (simp_all add: window_scrollY_def window_pageYOffset_def)



subsection \<open>A full cycle: the open transition, then the close transition\<close>

lemma menu_part_call_hooks: "menu_part (call_hooks e w) = menu_part w"
  by (simp add: call_hooks_def call_hook_def menu_part_def split: option.splits)

lemma menu_part_try_block: "menu_part (fst (try_block e st w)) = menu_part w"
proof -
  have "menu_part (call_hooks e u) = menu_part w" if "menu_part u = menu_part w" for u
    using that by (simp add: menu_part_call_hooks)
  then show ?thesis
    by (simp add: try_block_def menu_part_def split: sum.splits)
qed

lemma menu_part_triggerScrollEffects: "menu_part (fst (triggerScrollEffects e st w)) = menu_part w"
proof -
  have "menu_part (fst (try_block e st (w\<lparr>calls := calls w @ [TSE st]\<rparr>))) = menu_part w"
    by (simp add: menu_part_try_block) (simp add: menu_part_def)
  then show ?thesis
    by (auto simp: triggerScrollEffects_def Let_def menu_part_def split: prod.splits)
qed

lemma menu_part_refresh: "menu_part (refresh e st sc w) = menu_part w"
  using menu_part_triggerScrollEffects [of e st w]
  by (auto simp: refresh_def video_pass_def menu_part_def split: prod.splits option.splits)

lemma refresh_keeps:
  "isMenuOpen (refresh e st sc w) = isMenuOpen w \<and>
   isTransitioning (refresh e st sc w) = isTransitioning w \<and>
   storedScrollPosition (refresh e st sc w) = storedScrollPosition w \<and>
   now (refresh e st sc w) = now w \<and>
   next_timer (refresh e st sc w) = next_timer w \<and>
   timers (refresh e st sc w) = timers w \<and>
   persp_classes (refresh e st sc w) = persp_classes w \<and>
   persp_style (refresh e st sc w) = persp_style w \<and>
   persp_scrollTop (refresh e st sc w) = persp_scrollTop w \<and>
   persp_height (refresh e st sc w) = persp_height w \<and>
   persp_offset_top (refresh e st sc w) = persp_offset_top w \<and>
   scrollTimeout (refresh e st sc w) = scrollTimeout w \<and>
   listeners (refresh e st sc w) = listeners w \<and>
   container_style (refresh e st sc w) = container_style w \<and>
   nav_vis (refresh e st sc w) = nav_vis w \<and>
   doc_scroll (refresh e st sc w) = doc_scroll w"
  using menu_part_refresh [of e st sc w] by (simp add: menu_part_def)

lemma run_until_idle: "timers w = [] \<Longrightarrow> run_until e T w = w\<lparr>now := max (now w) T\<rparr>"
  by (simp add: run_until.simps [of e T w])

lemma run_until_single:
  "timers w = [t] \<Longrightarrow> due t \<le> T \<Longrightarrow>
   run_until e T w =
     run_until e T (run_callback e (cb t) (w\<lparr>timers := [], now := max (now w) (due t)\<rparr>))"
  by (simp add: run_until.simps [of e T w] fire_def)

lemma run_until_early:
  "timers w = [t] \<Longrightarrow> T < due t \<Longrightarrow> run_until e T w = w\<lparr>now := max (now w) T\<rparr>"
  by (simp add: run_until.simps [of e T w])

lemma removeClass_filter: "removeClass ns cs = filter (\<lambda>x. x \<notin> set ns) cs"
  unfolding removeClass_def
proof (induction ns arbitrary: cs)
  case Nil
  then show ?case by simp
next
  case (Cons n ns)
  show ?case by (simp add: Cons.IH)
qed

lemma set_addClass: "set (addClass ns cs) = set cs \<union> set ns"
  unfolding addClass_def by (induction ns arbitrary: cs) auto

lemma filter_addClass:
  "set ns \<subseteq> set ms \<Longrightarrow> filter (\<lambda>x. x \<notin> set ms) (addClass ns cs) = filter (\<lambda>x. x \<notin> set ms) cs"
  unfolding addClass_def by (induction ns arbitrary: cs) auto

lemma hasClass_addClass: "hasClass (addClass ns cs) c = (c \<in> set cs \<or> c \<in> set ns)"
  by (simp add: hasClass_def set_addClass)

lemma run_until_pair:
  assumes "timers w = [t1, t2]" and "tid t1 \<noteq> tid t2" and "due t1 \<le> due t2" and "due t1 \<le> T"
  shows "run_until e T w =
     run_until e T (run_callback e (cb t1) (w\<lparr>timers := [t2], now := max (now w) (due t1)\<rparr>))"
proof -
  have "next_due T (timers w) = Some t1"
    using assms by (simp split: option.splits)
  then show ?thesis
    using assms(1,2) by (simp add: run_until.simps [of e T w] fire_def)
qed

lemma run_callback_refresh:
  "\<not> is_transition c \<Longrightarrow> \<exists>st sc. run_callback e c u = refresh e st sc u"
  by (cases c) (auto simp: run_callback_def)

lemma closeMenu_world:
  assumes "\<not> isTransitioning w"
  shows "timers (closeMenu w) =
           timers w @ [\<lparr>tid = next_timer w, due = now w + 400, cb = CloseStrip\<rparr>]"
    and "next_timer (closeMenu w) = next_timer w + 1" and "now (closeMenu w) = now w"
    and "isTransitioning (closeMenu w)" and "\<not> isMenuOpen (closeMenu w)"
    and "storedScrollPosition (closeMenu w) = or_zero (modalview_scrollTop w)"
    and "listeners (closeMenu w) = 0"
    and "persp_classes (closeMenu w) =
           removeClass [''effect-rotate-left--animate''] (persp_classes w)"
    and "persp_style (closeMenu w) = persp_style w"
    and "container_style (closeMenu w) = container_style w"
  using assms
  by (simp_all add: closeMenu_def Let_def setTimeout_def modalview_scrollTop_def modalview_def)

lemma close_strip_world:
  "timers (close_strip e u) =
     timers u @ [\<lparr>tid = next_timer u, due = now u + 100,
                  cb = CloseRestore (attr_or_empty (persp_style u))
                         (attr_or_empty (container_style u))\<rparr>]"
  "next_timer (close_strip e u) = next_timer u + 1" "now (close_strip e u) = now u"
  "isTransitioning (close_strip e u) = isTransitioning u"
  "isMenuOpen (close_strip e u) = isMenuOpen u"
  "storedScrollPosition (close_strip e u) = storedScrollPosition u"
  "listeners (close_strip e u) = listeners u"
  "persp_classes (close_strip e u) =
     removeClass [''perspective--modalview'', ''effect-rotate-left''] (persp_classes u)"
  "doc_scroll (close_strip e u) = storedScrollPosition u"
  by (simp_all add: close_strip_def Let_def setTimeout_def window_scrollTo_def
      set_documentElement_scrollTop_def split: option.splits descriptor.splits)

lemma close_restore_world:
  "timers (close_restore e ps cs u) = timers u"
  "next_timer (close_restore e ps cs u) = next_timer u" "now (close_restore e ps cs u) = now u"
  "\<not> isTransitioning (close_restore e ps cs u)"
  "isMenuOpen (close_restore e ps cs u) = isMenuOpen u"
  "storedScrollPosition (close_restore e ps cs u) = storedScrollPosition u"
  "listeners (close_restore e ps cs u) = listeners u"
  "persp_classes (close_restore e ps cs u) = persp_classes u"
  "doc_scroll u = storedScrollPosition u \<Longrightarrow>
     doc_scroll (close_restore e ps cs u) = storedScrollPosition u"
  by (simp_all add: close_restore_def Let_def window_scrollTo_def)

lemma close_completes_pending:
  fixes e :: env and w :: world
  assumes nt: "\<not> isTransitioning w" and ts: "timers w = [t]" and rt: "\<not> is_transition (cb t)"
    and id: "tid t < next_timer w" and due: "due t \<le> now w + 400" and d: "500 \<le> d"
  defines "W \<equiv> run_until e (now w + d) (closeMenu w)"
  shows "\<not> isMenuOpen W" and "\<not> isTransitioning W" and "timers W = []"
    and "persp_classes W =
           removeClass [''perspective--modalview'', ''effect-rotate-left'']
             (removeClass [''effect-rotate-left--animate''] (persp_classes w))"
    and "doc_scroll W = or_zero (modalview_scrollTop w)"
    and "storedScrollPosition W = or_zero (modalview_scrollTop w)"
    and "listeners W = 0"
proof -
  let ?T = "now w + d"
  let ?cs = "\<lparr>tid = next_timer w, due = now w + 400, cb = CloseStrip\<rparr>"
  note c = closeMenu_world [OF nt]
  define u0 where "u0 = (closeMenu w)\<lparr>timers := [?cs], now := max (now (closeMenu w)) (due t)\<rparr>"
  define u1 where "u1 = run_callback e (cb t) u0"
  from run_callback_refresh [OF rt, of e u0] obtain st sc where u1: "u1 = refresh e st sc u0"
    by (auto simp: u1_def)
  have s1: "run_until e ?T (closeMenu w) = run_until e ?T u1"
  proof -
    have "timers (closeMenu w) = [t, ?cs]" using c(1) ts by simp
    from run_until_pair [OF this, of ?T e] id due d show ?thesis
      by (simp add: u1_def u0_def)
  qed
  have f1: "timers u1 = [?cs]" "next_timer u1 = next_timer w + 1" "now u1 = max (now w) (due t)"
    "isTransitioning u1" "\<not> isMenuOpen u1"
    "storedScrollPosition u1 = or_zero (modalview_scrollTop w)" "listeners u1 = 0"
    "persp_classes u1 = removeClass [''effect-rotate-left--animate''] (persp_classes w)"
    using c by (simp_all add: u1 refresh_keeps u0_def)
  define u2 where "u2 = run_callback e CloseStrip (u1\<lparr>timers := [], now := max (now u1) (due ?cs)\<rparr>)"
  have s2: "run_until e ?T u1 = run_until e ?T u2"
    using run_until_single [OF f1(1), of ?T e] d by (simp add: u2_def)
  have n2: "max (now u1) (due ?cs) = now w + 400"
    using f1(3) due by simp
  let ?cr = "\<lparr>tid = next_timer w + 1, due = now w + 500,
      cb = CloseRestore (attr_or_empty (persp_style u1)) (attr_or_empty (container_style u1))\<rparr>"
  have f2: "timers u2 = [?cr]" "now u2 = now w + 400"
    "isTransitioning u2" "\<not> isMenuOpen u2"
    "storedScrollPosition u2 = or_zero (modalview_scrollTop w)" "listeners u2 = 0"
    "persp_classes u2 = removeClass [''perspective--modalview'', ''effect-rotate-left'']
       (removeClass [''effect-rotate-left--animate''] (persp_classes w))"
    "doc_scroll u2 = or_zero (modalview_scrollTop w)"
    using f1 due by (simp_all add: u2_def run_callback_def close_strip_world max_def)
  define u3 where "u3 = run_callback e (cb ?cr) (u2\<lparr>timers := [], now := max (now u2) (due ?cr)\<rparr>)"
  have s3: "run_until e ?T u2 = run_until e ?T u3"
    using run_until_single [OF f2(1), of ?T e] d by (simp add: u3_def)
  have f3: "timers u3 = []" "\<not> isTransitioning u3" "\<not> isMenuOpen u3"
    "storedScrollPosition u3 = or_zero (modalview_scrollTop w)" "listeners u3 = 0"
    "persp_classes u3 = removeClass [''perspective--modalview'', ''effect-rotate-left'']
       (removeClass [''effect-rotate-left--animate''] (persp_classes w))"
    "doc_scroll u3 = or_zero (modalview_scrollTop w)"
    using f2 by (simp_all add: u3_def run_callback_def close_restore_world)
  have "W = u3\<lparr>now := max (now u3) ?T\<rparr>"
    using s1 s2 s3 run_until_idle [OF f3(1), of e ?T] by (simp add: W_def)
  with f3 show "\<not> isMenuOpen W" "\<not> isTransitioning W" "timers W = []"
    "persp_classes W =
           removeClass [''perspective--modalview'', ''effect-rotate-left'']
             (removeClass [''effect-rotate-left--animate''] (persp_classes w))"
    "doc_scroll W = or_zero (modalview_scrollTop w)"
    "storedScrollPosition W = or_zero (modalview_scrollTop w)"
    "listeners W = 0"
    by simp_all
qed

lemma close_completes_idle:
  fixes e :: env and w :: world
  assumes nt: "\<not> isTransitioning w" and ts: "timers w = []" and d: "500 \<le> d"
  defines "W \<equiv> run_until e (now w + d) (closeMenu w)"
  shows "\<not> isMenuOpen W" and "\<not> isTransitioning W" and "timers W = []"
    and "persp_classes W =
           removeClass [''perspective--modalview'', ''effect-rotate-left'']
             (removeClass [''effect-rotate-left--animate''] (persp_classes w))"
    and "doc_scroll W = or_zero (modalview_scrollTop w)"
    and "storedScrollPosition W = or_zero (modalview_scrollTop w)"
    and "listeners W = 0"
proof -
  let ?T = "now w + d"
  let ?cs = "\<lparr>tid = next_timer w, due = now w + 400, cb = CloseStrip\<rparr>"
  note c = closeMenu_world [OF nt]
  define u1 where "u1 = closeMenu w"
  have f1: "timers u1 = [?cs]" "next_timer u1 = next_timer w + 1" "now u1 = now w"
    "isTransitioning u1" "\<not> isMenuOpen u1"
    "storedScrollPosition u1 = or_zero (modalview_scrollTop w)" "listeners u1 = 0"
    "persp_classes u1 = removeClass [''effect-rotate-left--animate''] (persp_classes w)"
    using c ts by (simp_all add: u1_def)
  define u2 where "u2 = run_callback e CloseStrip (u1\<lparr>timers := [], now := max (now u1) (due ?cs)\<rparr>)"
  have s2: "run_until e ?T u1 = run_until e ?T u2"
    using run_until_single [OF f1(1), of ?T e] d by (simp add: u2_def)
  let ?cr = "\<lparr>tid = next_timer w + 1, due = now w + 500,
      cb = CloseRestore (attr_or_empty (persp_style u1)) (attr_or_empty (container_style u1))\<rparr>"
  have f2: "timers u2 = [?cr]" "now u2 = now w + 400"
    "isTransitioning u2" "\<not> isMenuOpen u2"
    "storedScrollPosition u2 = or_zero (modalview_scrollTop w)" "listeners u2 = 0"
    "persp_classes u2 = removeClass [''perspective--modalview'', ''effect-rotate-left'']
       (removeClass [''effect-rotate-left--animate''] (persp_classes w))"
    "doc_scroll u2 = or_zero (modalview_scrollTop w)"
    using f1 by (simp_all add: u2_def run_callback_def close_strip_world max_def)
  define u3 where "u3 = run_callback e (cb ?cr) (u2\<lparr>timers := [], now := max (now u2) (due ?cr)\<rparr>)"
  have s3: "run_until e ?T u2 = run_until e ?T u3"
    using run_until_single [OF f2(1), of ?T e] d by (simp add: u3_def)
  have f3: "timers u3 = []" "\<not> isTransitioning u3" "\<not> isMenuOpen u3"
    "storedScrollPosition u3 = or_zero (modalview_scrollTop w)" "listeners u3 = 0"
    "persp_classes u3 = removeClass [''perspective--modalview'', ''effect-rotate-left'']
       (removeClass [''effect-rotate-left--animate''] (persp_classes w))"
    "doc_scroll u3 = or_zero (modalview_scrollTop w)"
    using f2 by (simp_all add: u3_def run_callback_def close_restore_world)
  have "W = u3\<lparr>now := max (now u3) ?T\<rparr>"
    using s2 s3 run_until_idle [OF f3(1), of e ?T] by (simp add: W_def u1_def)
  with f3 show "\<not> isMenuOpen W" "\<not> isTransitioning W" "timers W = []"
    "persp_classes W =
           removeClass [''perspective--modalview'', ''effect-rotate-left'']
             (removeClass [''effect-rotate-left--animate''] (persp_classes w))"
    "doc_scroll W = or_zero (modalview_scrollTop w)"
    "storedScrollPosition W = or_zero (modalview_scrollTop w)"
    "listeners W = 0"
    by simp_all
qed

lemma openMenu_world:
  assumes "\<not> isTransitioning w"
  shows "timers (openMenu e w) =
           timers w @ [\<lparr>tid = next_timer w, due = now w + 50, cb = OpenAnimate\<rparr>]"
    and "next_timer (openMenu e w) = next_timer w + 1" and "now (openMenu e w) = now w"
    and "isTransitioning (openMenu e w)"
    and "storedScrollPosition (openMenu e w) = scroll_position e w"
    and "persp_classes (openMenu e w) =
           addClass [''perspective--modalview'', ''effect-rotate-left'']
             (removeClass [''perspective--modalview'', ''effect-rotate-left'',
                           ''effect-rotate-left--animate'', ''modalview''] (persp_classes w))"
  using assms
  by (simp_all add: openMenu_def Let_def setTimeout_def scroll_position_def window_scrollY_def
      window_pageYOffset_def documentElement_scrollTop_def)

lemma open_animate_world:
  "timers (open_animate u) =
     timers u @ [\<lparr>tid = next_timer u, due = now u + 100, cb = OpenScroll\<rparr>]"
  "next_timer (open_animate u) = next_timer u + 1" "now (open_animate u) = now u"
  "isTransitioning (open_animate u) = isTransitioning u"
  "storedScrollPosition (open_animate u) = storedScrollPosition u"
  "persp_classes (open_animate u) = addClass [''effect-rotate-left--animate''] (persp_classes u)"
  by (simp_all add: open_animate_def Let_def setTimeout_def)

lemma open_scroll_world:
  "timers (open_scroll u) =
     timers u @ [\<lparr>tid = next_timer u, due = now u + 200, cb = OpenSetup\<rparr>]"
  "next_timer (open_scroll u) = next_timer u + 1" "now (open_scroll u) = now u"
  "isTransitioning (open_scroll u) = isTransitioning u"
  "storedScrollPosition (open_scroll u) = storedScrollPosition u"
  "persp_classes (open_scroll u) = persp_classes u"
  "modalview u \<Longrightarrow> persp_scrollTop (open_scroll u) = storedScrollPosition u"
  by (simp_all add: open_scroll_def Let_def setTimeout_def)

lemma open_setup_world:
  "timers (open_setup u) =
     timers u @ [\<lparr>tid = next_timer u, due = now u + 200, cb = InitialSync (modalview u)\<rparr>]"
  "next_timer (open_setup u) = next_timer u + 1" "now (open_setup u) = now u"
  "\<not> isTransitioning (open_setup u)"
  "persp_classes (open_setup u) = persp_classes u"
  "persp_scrollTop (open_setup u) = persp_scrollTop u"
  by (simp_all add: open_setup_def setupScrollEffects_def Let_def setTimeout_def)

lemma open_completes_from:
  fixes e :: env and w :: world
  assumes nt: "\<not> isTransitioning w" and ts: "timers w = []" and d: "350 \<le> d"
  defines "W \<equiv> run_until e (now w + d) (openMenu e w)"
  shows "\<not> isTransitioning W" and "now W = now w + d" and "next_timer W = next_timer w + 4"
    and "persp_classes W = opened_classes (persp_classes w)"
    and "persp_scrollTop W = scroll_position e w"
    and "timers W =
           (if d < 550
            then [\<lparr>tid = next_timer w + 3, due = now w + 550, cb = InitialSync True\<rparr>]
            else [])"
proof -
  let ?T = "now w + d"
  note o = openMenu_world [OF nt, of e]
  define u1 where "u1 = openMenu e w"
  let ?t1 = "\<lparr>tid = next_timer w, due = now w + 50, cb = OpenAnimate\<rparr>"
  have f1: "timers u1 = [?t1]" "next_timer u1 = next_timer w + 1" "now u1 = now w"
    "isTransitioning u1" "storedScrollPosition u1 = scroll_position e w"
    "persp_classes u1 =
           addClass [''perspective--modalview'', ''effect-rotate-left'']
             (removeClass [''perspective--modalview'', ''effect-rotate-left'',
                           ''effect-rotate-left--animate'', ''modalview''] (persp_classes w))"
    using o ts by (simp_all add: u1_def)
  define u2 where "u2 = run_callback e OpenAnimate (u1\<lparr>timers := [], now := max (now u1) (due ?t1)\<rparr>)"
  have s2: "run_until e ?T u1 = run_until e ?T u2"
    using run_until_single [OF f1(1), of ?T e] d by (simp add: u2_def)
  let ?t2 = "\<lparr>tid = next_timer w + 1, due = now w + 150, cb = OpenScroll\<rparr>"
  have f2: "timers u2 = [?t2]" "next_timer u2 = next_timer w + 2" "now u2 = now w + 50"
    "isTransitioning u2" "storedScrollPosition u2 = scroll_position e w"
    "persp_classes u2 = opened_classes (persp_classes w)"
    using f1 by (simp_all add: u2_def run_callback_def open_animate_world opened_classes_def)
  have mv: "hasClass (opened_classes cs) ''perspective--modalview''" for cs
    by (simp add: opened_classes_def hasClass_addClass set_addClass)
  define u3 where "u3 = run_callback e OpenScroll (u2\<lparr>timers := [], now := max (now u2) (due ?t2)\<rparr>)"
  have s3: "run_until e ?T u2 = run_until e ?T u3"
    using run_until_single [OF f2(1), of ?T e] d by (simp add: u3_def)
  let ?t3 = "\<lparr>tid = next_timer w + 2, due = now w + 350, cb = OpenSetup\<rparr>"
  have m2: "modalview (u2\<lparr>timers := [], now := max (now u2) (due ?t2)\<rparr>)"
    using mv f2(6) by (simp add: modalview_def)
  have f3: "timers u3 = [?t3]" "next_timer u3 = next_timer w + 3" "now u3 = now w + 150"
    "isTransitioning u3" "persp_classes u3 = opened_classes (persp_classes w)"
    "persp_scrollTop u3 = scroll_position e w"
    using f2 open_scroll_world(7) [OF m2]
    by (simp_all add: u3_def run_callback_def open_scroll_world)
  define u4 where "u4 = run_callback e OpenSetup (u3\<lparr>timers := [], now := max (now u3) (due ?t3)\<rparr>)"
  have s4: "run_until e ?T u3 = run_until e ?T u4"
    using run_until_single [OF f3(1), of ?T e] d by (simp add: u4_def)
  let ?t4 = "\<lparr>tid = next_timer w + 3, due = now w + 550, cb = InitialSync True\<rparr>"
  have m3: "modalview (u3\<lparr>timers := [], now := max (now u3) (due ?t3)\<rparr>)"
    using mv f3(5) by (simp add: modalview_def)
  have f4: "timers u4 = [?t4]" "next_timer u4 = next_timer w + 4" "now u4 = now w + 350"
    "\<not> isTransitioning u4" "persp_classes u4 = opened_classes (persp_classes w)"
    "persp_scrollTop u4 = scroll_position e w"
    using f3 m3 by (simp_all add: u4_def run_callback_def open_setup_world)
  have start: "W = run_until e ?T u4"
    using s2 s3 s4 by (simp add: W_def u1_def)
  have all: "\<not> isTransitioning W \<and> now W = now w + d \<and> next_timer W = next_timer w + 4 \<and>
      persp_classes W = opened_classes (persp_classes w) \<and>
      persp_scrollTop W = scroll_position e w \<and> timers W = (if d < 550 then [?t4] else [])"
  proof (cases "d < 550")
    case True
    then have "W = u4\<lparr>now := max (now u4) ?T\<rparr>"
      using run_until_early [OF f4(1), of ?T e] start by simp
    with f4 d True show ?thesis by simp
  next
    case False
    define u5 where "u5 = run_callback e (InitialSync True)
        (u4\<lparr>timers := [], now := max (now u4) (due ?t4)\<rparr>)"
    have s5: "run_until e ?T u4 = run_until e ?T u5"
      using run_until_single [OF f4(1), of ?T e] False by (simp add: u5_def)
    have f5: "timers u5 = []" "next_timer u5 = next_timer w + 4" "now u5 = now w + 550"
      "\<not> isTransitioning u5" "persp_classes u5 = opened_classes (persp_classes w)"
      "persp_scrollTop u5 = scroll_position e w"
      using f4 by (simp_all add: u5_def run_callback_def refresh_keeps)
    have "W = u5\<lparr>now := max (now u5) ?T\<rparr>"
      using start s5 run_until_idle [OF f5(1), of e ?T] by simp
    with f5 False show ?thesis by simp
  qed
  from all show "\<not> isTransitioning W" "now W = now w + d" "next_timer W = next_timer w + 4"
    "persp_classes W = opened_classes (persp_classes w)"
    "persp_scrollTop W = scroll_position e w"
    "timers W = (if d < 550 then [?t4] else [])"
    by simp_all
qed

lemma closed_classes:
  "removeClass [''perspective--modalview'', ''effect-rotate-left'']
     (removeClass [''effect-rotate-left--animate''] (opened_classes cs))
   = removeClass marker_classes cs"
proof -
  let ?ms = "{''perspective--modalview'', ''effect-rotate-left'', ''effect-rotate-left--animate''}"
  have "removeClass [''perspective--modalview'', ''effect-rotate-left'']
                (removeClass [''effect-rotate-left--animate''] (opened_classes cs))
          = filter (\<lambda>x. x \<notin> ?ms) (opened_classes cs)"
    by (simp add: removeClass_filter) (metis)
  also have "\<dots> = filter (\<lambda>x. x \<notin> ?ms) (removeClass marker_classes cs)"
    using filter_addClass [of "[''effect-rotate-left--animate'']"
        "[''perspective--modalview'', ''effect-rotate-left'', ''effect-rotate-left--animate'']"]
      filter_addClass [of "[''perspective--modalview'', ''effect-rotate-left'']"
        "[''perspective--modalview'', ''effect-rotate-left'', ''effect-rotate-left--animate'']"]
    by (simp add: opened_classes_def marker_classes_def)
  also have "\<dots> = removeClass marker_classes cs"
    by (simp add: removeClass_filter marker_classes_def) (metis)
  finally show ?thesis .
qed

lemma cycle_world:
  fixes e :: env and w :: world and y :: int and d1 d2 :: nat
  assumes "at_rest w" and "350 \<le> d1" and "500 \<le> d2"
  defines "w' \<equiv> open_then_close e d1 y d2 w"
  shows "\<not> isMenuOpen w'" and "\<not> isTransitioning w'" and "timers w' = []"
    and "persp_classes w' = removeClass marker_classes (persp_classes w)"
    and "doc_scroll w' = scroll_position e w"
    and "storedScrollPosition w' = scroll_position e w" and "listeners w' = 0"
proof -
  define w1 where "w1 = run_until e (now w + d1) (openMenu e w)"
  define w2 where "w2 = w1\<lparr>doc_scroll := y\<rparr>"
  from assms(1) have r: "\<not> isTransitioning w" "timers w = []" by (simp_all add: at_rest_def)
  note o = open_completes_from [OF r assms(2), of e, folded w1_def]
  have f: "\<not> isTransitioning w2" "now w2 = now w + d1" "next_timer w2 = next_timer w + 4"
    "persp_classes w2 = opened_classes (persp_classes w)"
    "persp_scrollTop w2 = scroll_position e w"
    "timers w2 = (if d1 < 550
            then [\<lparr>tid = next_timer w + 3, due = now w + 550, cb = InitialSync True\<rparr>]
            else [])"
    using o by (simp_all add: w2_def)
  have mv: "modalview w2"
    by (simp add: modalview_def f opened_classes_def hasClass_addClass set_addClass)
  have M: "or_zero (modalview_scrollTop w2) = scroll_position e w"
    using mv by (simp add: modalview_scrollTop_def f or_zero_def)
  have w': "w' = run_until e (now w2 + d2) (closeMenu w2)"
    by (simp add: w'_def open_then_close_def Let_def w1_def w2_def)
  have all: "\<not> isMenuOpen w' \<and> \<not> isTransitioning w' \<and> timers w' = [] \<and>
      persp_classes w' = removeClass [''perspective--modalview'', ''effect-rotate-left'']
             (removeClass [''effect-rotate-left--animate''] (persp_classes w2)) \<and>
      doc_scroll w' = or_zero (modalview_scrollTop w2) \<and>
      storedScrollPosition w' = or_zero (modalview_scrollTop w2) \<and> listeners w' = 0"
  proof (cases "d1 < 550")
    case True
    let ?t = "\<lparr>tid = next_timer w + 3, due = now w + 550, cb = InitialSync True\<rparr>"
    have t: "timers w2 = [?t]" using f(6) True by simp
    have "\<not> is_transition (cb ?t)" "tid ?t < next_timer w2" "due ?t \<le> now w2 + 400"
      using f assms(2) by simp_all
    from close_completes_pending [OF f(1) t this assms(3), of e] show ?thesis
      by (simp add: w')
  next
    case False
    then have t: "timers w2 = []" using f(6) by simp
    from close_completes_idle [OF f(1) t assms(3), of e] show ?thesis
      by (simp add: w')
  qed
  from all show "\<not> isMenuOpen w'" "\<not> isTransitioning w'" "timers w' = []"
    "doc_scroll w' = scroll_position e w" "storedScrollPosition w' = scroll_position e w"
    "listeners w' = 0"
    by (simp_all add: M)
  from all show "persp_classes w' = removeClass marker_classes (persp_classes w)"
    by (simp add: f closed_classes)
qed

lemma read_position: "reports_document e w \<Longrightarrow> scroll_position e w = doc_scroll w"
  by (simp add: scroll_position_def reports_document_def js_or_def or_zero_def)

text \<open>
  C2. From a page at rest whose scroll properties report the document's offset \<open>S\<close>:
  after \<^verbatim>\<open>openMenu\<close> has run to completion (its three phases, 350 ms; the first pass
  over the effects, which the last phase schedules for 200 ms later, has run or is
  still pending) and then \<^verbatim>\<open>closeMenu\<close> has run to completion (500 ms), the overlay
  not having been scrolled in between, the document stands at \<open>S\<close> again, wherever it
  was moved while the overlay was shown; so it is within 10 px of \<open>S\<close>.
\<close>

theorem scroll_fidelity:
  assumes "at_rest w" and "reports_document e w" and "350 \<le> d1" and "500 \<le> d2"
  shows "doc_scroll (open_then_close e d1 y d2 w) = doc_scroll w \<and>
         \<bar>doc_scroll (open_then_close e d1 y d2 w) - doc_scroll w\<bar> \<le> 10"
  using cycle_world(5) [OF assms(1,3,4), of e y] read_position [OF assms(2)] by simp

theorem scroll_fidelity_witness:
  "at_rest page0 \<and> reports_document env0 page0 \<and> doc_scroll page0 = 500 \<and>
   doc_scroll (open_then_close env0 400 0 500 page0) = 500"
proof -
  have a: "at_rest page0" by (simp add: at_rest_def page0_def)
  have b: "reports_document env0 page0"
    by (simp add: reports_document_def page0_def env0_def window_scrollY_def
        window_pageYOffset_def documentElement_scrollTop_def lookup_def read_descriptor_def
        Element_prototype_scrollTop_def)
  have c: "doc_scroll page0 = 500" by (simp add: page0_def)
  show ?thesis
    using scroll_fidelity [OF a b, of 400 500 0] a b c by simp
qed

lemma removeClass_absent: "set cs \<inter> set ns = {} \<Longrightarrow> removeClass ns cs = cs"
  by (auto simp: removeClass_filter filter_id_conv)

lemma hasClass_removeClass: "hasClass (removeClass ns cs) c = (c \<in> set cs \<and> c \<notin> set ns)"
  by (auto simp: removeClass_filter hasClass_def)

text \<open>
  C4, as amended. From a page at rest, after \<^verbatim>\<open>openMenu\<close> has run to completion (its
  three phases, 350 ms) and then \<^verbatim>\<open>closeMenu\<close> has run to completion (500 ms), the
  menu is closed, no transition runs and no timer is pending; the container has none
  of the classes \<^verbatim>\<open>perspective--modalview\<close>, \<^verbatim>\<open>effect-rotate-left\<close> and
  \<^verbatim>\<open>effect-rotate-left--animate\<close>; and its class list is the list it had before the
  open with every occurrence of these three and of \<^verbatim>\<open>modalview\<close> removed. It is the
  list it had before when that list held none of the four.
\<close>

theorem class_round_trip:
  assumes "at_rest w" and "350 \<le> d1" and "500 \<le> d2"
  shows "\<not> isMenuOpen (open_then_close e d1 y d2 w) \<and>
         \<not> isTransitioning (open_then_close e d1 y d2 w) \<and>
         timers (open_then_close e d1 y d2 w) = [] \<and>
         \<not> hasClass (persp_classes (open_then_close e d1 y d2 w)) ''perspective--modalview'' \<and>
         \<not> hasClass (persp_classes (open_then_close e d1 y d2 w)) ''effect-rotate-left'' \<and>
         \<not> hasClass (persp_classes (open_then_close e d1 y d2 w)) ''effect-rotate-left--animate'' \<and>
         persp_classes (open_then_close e d1 y d2 w) =
           removeClass marker_classes (persp_classes w) \<and>
         (set (persp_classes w) \<inter> set marker_classes = {} \<longrightarrow>
            persp_classes (open_then_close e d1 y d2 w) = persp_classes w)"
  using cycle_world(1-4) [OF assms, of e y]
  by (simp add: hasClass_removeClass removeClass_absent) (simp add: marker_classes_def)

theorem class_round_trip_witness:
  "at_rest (page0\<lparr>persp_classes := [''perspective'', ''dark'']\<rparr>) \<and>
   persp_classes (open_then_close env0 550 0 500
       (page0\<lparr>persp_classes := [''perspective'', ''dark'']\<rparr>)) = [''perspective'', ''dark''] \<and>
   \<not> isMenuOpen (open_then_close env0 550 0 500
       (page0\<lparr>persp_classes := [''perspective'', ''dark'']\<rparr>))"
proof -
  have a: "at_rest (page0\<lparr>persp_classes := [''perspective'', ''dark'']\<rparr>)"
    by (simp add: at_rest_def page0_def)
  have b: "set (persp_classes (page0\<lparr>persp_classes := [''perspective'', ''dark'']\<rparr>))
      \<inter> set marker_classes = {}"
    by (simp add: marker_classes_def)
  have d: "(350::nat) \<le> 550" "(500::nat) \<le> 500" by simp_all
  note t = class_round_trip [OF a d, of env0 0]
  from t b have "persp_classes (open_then_close env0 550 0 500
       (page0\<lparr>persp_classes := [''perspective'', ''dark'']\<rparr>))
     = persp_classes (page0\<lparr>persp_classes := [''perspective'', ''dark'']\<rparr>)"
    by blast
  moreover from t have "\<not> isMenuOpen (open_then_close env0 550 0 500
       (page0\<lparr>persp_classes := [''perspective'', ''dark'']\<rparr>))"
    by blast
  ultimately show ?thesis using a by simp
qed

text \<open>
  The claim C4 as it is written asks for the class list of before the open. The
  container of the repository's markup, \<^verbatim>\<open><div class="perspective effect-rotate-left">\<close>,
  is closed and loses \<^verbatim>\<open>effect-rotate-left\<close> in the cycle.
\<close>

theorem class_round_trip_counterexample:
  "fresh page0 \<and> at_rest page0 \<and>
   \<not> hasClass (persp_classes page0) ''effect-rotate-left--animate'' \<and>
   persp_classes page0 = [''perspective'', ''effect-rotate-left''] \<and>
   persp_classes (open_then_close env0 550 0 500 page0) = [''perspective''] \<and>
   persp_classes (open_then_close env0 550 0 500 page0) \<noteq> persp_classes page0"
  by code_simp

subsection \<open>The debounce of the scroll handler\<close>

lemma run_until_none:
  "next_due T (timers w) = None \<Longrightarrow> run_until e T w = w\<lparr>now := max (now w) T\<rparr>"
  by (simp add: run_until.simps [of e T w])

lemma run_until_second:
  assumes "timers w = [t1, t2]" and "tid t1 \<noteq> tid t2" and "due t2 < due t1" and "due t2 \<le> T"
  shows "run_until e T w =
     run_until e T (run_callback e (cb t2) (w\<lparr>timers := [t1], now := max (now w) (due t2)\<rparr>))"
proof -
  have "next_due T (timers w) = Some t2"
    using assms by (simp split: option.splits)
  then show ?thesis
    using assms(1,2) by (simp add: run_until.simps [of e T w] fire_def)
qed

lemma redefinable_overridable: "redefinable e w \<Longrightarrow> overridable y w"
  by (auto simp: redefinable_def overridable_def defineProperty_def original_descriptor_def
      split: option.splits)

lemma own_call_hooks:
  "scrollY_own (call_hooks e w) = scrollY_own w \<and>
   pageYOffset_own (call_hooks e w) = pageYOffset_own w \<and>
   docScrollTop_own (call_hooks e w) = docScrollTop_own w"
  by (simp add: call_hooks_def call_hook_def split: option.splits)

lemma redefinable_triggerScrollEffects:
  assumes "redefinable e w"
  shows "redefinable e (fst (triggerScrollEffects e y w))"
proof -
  let ?w = "w\<lparr>calls := calls w @ [TSE y]\<rparr>"
  from redefinable_overridable [OF assms, of y]
  obtain a b c where d: "defineProperty (scrollY_own w) (DataValue y) = Inr a"
    "defineProperty (pageYOffset_own w) (DataValue y) = Inr b"
    "defineProperty (docScrollTop_own w) (DataValue y) = Inr c"
    by (auto simp: overridable_def isl_def) (metis sum.exhaust_sel isl_def)
  from d have v: "a = Some (DataValue y)" "b = Some (DataValue y)" "c = Some (DataValue y)"
    by (simp_all add: defineProperty_Inr)
  let ?o = "?w\<lparr>scrollY_own := a, pageYOffset_own := b, docScrollTop_own := c\<rparr>"
  have tb: "try_block e y ?w = (call_hooks e ?o, None)"
    using d by (simp add: try_block_def)
  have "scrollY_own (fst (triggerScrollEffects e y w)) =
          Some (original_descriptor (scrollY_own w) (Window_prototype_scrollY e) Literal)"
    "pageYOffset_own (fst (triggerScrollEffects e y w)) =
          Some (original_descriptor (pageYOffset_own w) (Window_prototype_pageYOffset e) Literal)"
    "docScrollTop_own (fst (triggerScrollEffects e y w)) =
          Some (original_descriptor (docScrollTop_own w) Element_prototype_scrollTop Literal)"
    using own_call_hooks [of e ?o]
    by (simp_all add: triggerScrollEffects_def Let_def tb v restore_override)
  with assms show ?thesis
    by (simp add: redefinable_def original_descriptor_def)
qed

lemma redefinable_refresh:
  assumes "redefinable e w"
  shows "redefinable e (refresh e y sc w)"
proof -
  obtain w1 r where t: "triggerScrollEffects e y w = (w1, r)" by (cases "triggerScrollEffects e y w")
  with redefinable_triggerScrollEffects [OF assms, of y] have "redefinable e w1" by simp
  then show ?thesis
    by (auto simp: refresh_def t video_pass_def redefinable_def split: option.splits prod.splits)
qed

lemma calls_call_hooks: "calls (call_hooks e w) = calls w"
  by (simp add: call_hooks_def call_hook_def split: option.splits)

lemma try_block_calls:
  "calls (fst (try_block e y w)) = calls w \<and> (snd (try_block e y w) = None \<longleftrightarrow> overridable y w)"
  by (auto simp: try_block_def overridable_def calls_call_hooks split: sum.splits)

lemma triggerScrollEffects_calls:
  "calls (fst (triggerScrollEffects e y w)) = calls w @ [TSE y] \<and>
   (snd (triggerScrollEffects e y w) = None \<longleftrightarrow> overridable y w)"
proof -
  have "overridable y (w\<lparr>calls := calls w @ [TSE y]\<rparr>) = overridable y w"
    by (simp add: overridable_def)
  with try_block_calls [of e y "w\<lparr>calls := calls w @ [TSE y]\<rparr>"] show ?thesis
    by (auto simp: triggerScrollEffects_def Let_def split: prod.splits)
qed

lemma refresh_calls:
  "calls (refresh e y sc w) = calls w @ TSE y # (if overridable y w then [TVE] else [])"
  using triggerScrollEffects_calls [of e y w]
  by (auto simp: refresh_def video_pass_def split: prod.splits option.splits)

lemma refreshes_append: "refreshes (xs @ ys) = refreshes xs @ refreshes ys"
  by (simp add: refreshes_def)

lemma traced_refresh:
  assumes "traced e R u cs"
  shows "traced e R (refresh e y sc u) (cs @ [TSE y, TVE])"
  using assms refresh_calls [of e y sc u] redefinable_overridable [of e u y]
    redefinable_refresh [of e u y sc]
  by (auto simp: traced_def refreshes_def)

lemma traced_kept: "kept u' = kept u \<Longrightarrow> traced e R u' cs = traced e R u cs"
  by (simp add: kept_def traced_def redefinable_def)

lemma kept_frame: "kept (u\<lparr>timers := ts, now := n\<rparr>) = kept u" "kept (u\<lparr>now := n\<rparr>) = kept u"
  "kept (u\<lparr>persp_scrollTop := y\<rparr>) = kept u"
  by (simp_all add: kept_def)

lemma armed_listening: "armed u y k r \<Longrightarrow> listening u k r"
  by (auto simp: armed_def listening_def)

lemma handler_listening:
  assumes "listening u k r"
  shows "armed (scroll_handler u) (persp_scrollTop u) k r"
    and "kept (scroll_handler u) = kept u"
    and "now (scroll_handler u) = now u"
    and "persp_scrollTop (scroll_handler u) = persp_scrollTop u"
proof -
  from assms have o: "isMenuOpen u" "0 < listeners u" "k < next_timer u"
    by (simp_all add: listening_def)
  from assms obtain D where D: "timers u = syncs k (now u) r @ D"
    "D = [] \<or> (\<exists>t. D = [t] \<and> scrollTimeout u = Some (tid t))"
    by (auto simp: listening_def)
  from assms have j: "\<And>j. scrollTimeout u = Some j \<Longrightarrow> j \<noteq> k"
    by (simp add: listening_def)
  have c: "(case scrollTimeout u of None \<Rightarrow> timers u
            | Some j \<Rightarrow> filter (\<lambda>t. tid t \<noteq> j) (timers u)) = syncs k (now u) r"
  proof (cases "scrollTimeout u")
    case None
    with D show ?thesis by simp
  next
    case (Some i)
    with j have "i \<noteq> k" by simp
    then have "filter (\<lambda>t. tid t \<noteq> i) (syncs k (now u) r) = syncs k (now u) r"
      by (simp add: syncs_def)
    moreover have "filter (\<lambda>t. tid t \<noteq> i) D = []"
      using D(2) Some by auto
    ultimately show ?thesis using Some D(1) by simp
  qed
  note f = scroll_handler_fields [OF o(1)]
  from f c have t: "timers (scroll_handler u) =
      syncs k (now u) r @
        [\<lparr>tid = next_timer u, due = now u + 16, cb = ScrollRefresh (persp_scrollTop u)\<rparr>]"
    by simp
  show k: "kept (scroll_handler u) = kept u" and n: "now (scroll_handler u) = now u"
    and p: "persp_scrollTop (scroll_handler u) = persp_scrollTop u"
    using o(1)
    by (simp_all add: kept_def scroll_handler_def Let_def setTimeout_def clearTimeout_def
        split: option.splits)
  from k o have "isMenuOpen (scroll_handler u)" "0 < listeners (scroll_handler u)"
    by (simp_all add: kept_def)
  with t f o(3) n p show "armed (scroll_handler u) (persp_scrollTop u) k r"
    by (simp add: armed_def)
qed

lemma handlers_listening:
  assumes "listening u k r" and "0 < n"
  shows "armed ((scroll_handler ^^ n) u) (persp_scrollTop u) k r \<and>
         kept ((scroll_handler ^^ n) u) = kept u \<and>
         now ((scroll_handler ^^ n) u) = now u"
  using assms(2)
proof (induction n)
  case 0
  then show ?case by simp
next
  case (Suc n)
  show ?case
  proof (cases "n = 0")
    case True
    with handler_listening [OF assms(1)] show ?thesis by simp
  next
    case False
    with Suc.IH have ih: "armed ((scroll_handler ^^ n) u) (persp_scrollTop u) k r"
      "kept ((scroll_handler ^^ n) u) = kept u" "now ((scroll_handler ^^ n) u) = now u"
      by simp_all
    from ih(1) have p: "persp_scrollTop ((scroll_handler ^^ n) u) = persp_scrollTop u"
      by (simp add: armed_def)
    from handler_listening [OF armed_listening [OF ih(1)]] ih p show ?thesis
      by simp
  qed
qed

lemma event_listening:
  assumes "listening u k r"
  shows "armed (apply_event e u (ScrollTo y)) y k r"
    and "kept (apply_event e u (ScrollTo y)) = kept u"
    and "now (apply_event e u (ScrollTo y)) = now u"
proof -
  let ?u = "u\<lparr>persp_scrollTop := y\<rparr>"
  from assms have l: "listening ?u k r" and n: "0 < listeners ?u"
    by (simp_all add: listening_def)
  from handlers_listening [OF l n]
  show "armed (apply_event e u (ScrollTo y)) y k r"
    "kept (apply_event e u (ScrollTo y)) = kept u"
    "now (apply_event e u (ScrollTo y)) = now u"
    by (simp_all add: apply_event_def deliver_scroll_def kept_def)
qed

lemma sync_refresh:
  "run_callback e (InitialSync True) u =
     refresh e (Some (persp_scrollTop u))
       (Some \<lparr>box_scrollTop = persp_scrollTop u, box_height = persp_height u,
              box_offset_top = persp_offset_top u\<rparr>) u"
  by (simp add: run_callback_def)

lemma debounce_refresh:
  "run_callback e (ScrollRefresh y) u =
     refresh e (Some y)
       (Some \<lparr>box_scrollTop = persp_scrollTop u, box_height = persp_height u,
              box_offset_top = persp_offset_top u\<rparr>) u"
  by (simp add: run_callback_def)

lemma traced_frame:
  "traced e R (u\<lparr>timers := ts, now := n\<rparr>) cs = traced e R u cs"
  "traced e R (u\<lparr>now := n\<rparr>) cs = traced e R u cs"
  "traced e R (u\<lparr>timers := ts\<rparr>) cs = traced e R u cs"
  by (simp_all add: traced_def redefinable_def)

lemma wait_armed:
  assumes a: "armed u y k r" and g: "g < 16" and t: "traced e R u cs"
  shows "listening (apply_event e u (Wait g)) k (r - g)"
    and "traced e R (apply_event e u (Wait g))
           (cs @ (if 0 < r \<and> r \<le> g then [TSE (Some y), TVE] else []))"
    and "now (apply_event e u (Wait g)) = now u + g"
proof -
  from a obtain i where i: "k < i" "i < next_timer u" "scrollTimeout u = Some i"
    "timers u = syncs k (now u) r @ [\<lparr>tid = i, due = now u + 16, cb = ScrollRefresh y\<rparr>]"
    by (auto simp: armed_def)
  from a have o: "isMenuOpen u" "0 < listeners u" "persp_scrollTop u = y"
    by (simp_all add: armed_def)
  let ?T = "now u + g"
  let ?d = "\<lparr>tid = i, due = now u + 16, cb = ScrollRefresh y\<rparr>"
  let ?s = "\<lparr>tid = k, due = now u + r, cb = InitialSync True\<rparr>"
  have all: "listening (run_until e ?T u) k (r - g) \<and>
      traced e R (run_until e ?T u) (cs @ (if 0 < r \<and> r \<le> g then [TSE (Some y), TVE] else [])) \<and>
      now (run_until e ?T u) = now u + g"
  proof (cases "0 < r \<and> r \<le> g")
    case False
    have "next_due ?T (timers u) = None"
      using False g i(4) by (auto simp: syncs_def)
    from run_until_none [OF this, of e] have eq: "run_until e ?T u = u\<lparr>now := ?T\<rparr>"
      by (simp add: max_def)
    have "syncs k (now u) r = syncs k ?T (r - g)"
      using False by (auto simp: syncs_def)
    then have "listening (u\<lparr>now := ?T\<rparr>) k (r - g)"
      using o i by (auto simp: listening_def)
    with False t show ?thesis
      by (auto simp: eq traced_frame)
  next
    case True
    then have ts: "timers u = [?s, ?d]" using i(4) by (simp add: syncs_def)
    let ?u1 = "u\<lparr>timers := [?d], now := max (now u) (due ?s)\<rparr>"
    let ?v = "refresh e (Some y)
       (Some \<lparr>box_scrollTop = persp_scrollTop ?u1, box_height = persp_height ?u1,
              box_offset_top = persp_offset_top ?u1\<rparr>) ?u1"
    have "run_until e ?T u = run_until e ?T (run_callback e (cb ?s) ?u1)"
      using run_until_pair [OF ts, of ?T e] True g i(1) by simp
    also have "run_callback e (cb ?s) ?u1 = ?v"
      using o(3) by (simp add: sync_refresh)
    finally have s1: "run_until e ?T u = run_until e ?T ?v" .
    note rk = refresh_keeps [of e "Some y"
       "Some \<lparr>box_scrollTop = persp_scrollTop ?u1, box_height = persp_height ?u1,
              box_offset_top = persp_offset_top ?u1\<rparr>" ?u1]
    have tv: "timers ?v = [?d]" using rk by simp
    have "run_until e ?T ?v = ?v\<lparr>now := max (now ?v) ?T\<rparr>"
      using run_until_early [OF tv, of ?T e] g by simp
    also have "max (now ?v) ?T = ?T"
      using rk True by (simp add: max_def)
    finally have eq: "run_until e ?T u = ?v\<lparr>now := ?T\<rparr>"
      using s1 by simp
    have "listening (?v\<lparr>now := ?T\<rparr>) k (r - g)"
      using rk o i True by (simp add: listening_def syncs_def)
    moreover have "traced e R ?v (cs @ [TSE (Some y), TVE])"
      by (rule traced_refresh) (simp add: traced_frame t)
    ultimately show ?thesis
      using True by (simp add: eq traced_frame)
  qed
  then show "listening (apply_event e u (Wait g)) k (r - g)"
    "traced e R (apply_event e u (Wait g))
           (cs @ (if 0 < r \<and> r \<le> g then [TSE (Some y), TVE] else []))"
    "now (apply_event e u (Wait g)) = now u + g"
    by (simp_all add: apply_event_def)
qed

lemma burst_armed:
  assumes "armed u y k r" and "traced e R u cs" and "\<forall>g \<in> set (map fst gys). g < 16"
  shows "armed (scroll_burst e gys u) (last (y # map snd gys)) k (r - sum_list (map fst gys)) \<and>
         traced e R (scroll_burst e gys u)
           (cs @ (if 0 < r \<and> r \<le> sum_list (map fst gys)
                  then [TSE (Some (shown_at r y gys)), TVE] else [])) \<and>
         now (scroll_burst e gys u) = now u + sum_list (map fst gys)"
  using assms
proof (induction gys arbitrary: u y r cs)
  case Nil
  then show ?case by auto
next
  case (Cons a gys)
  obtain g y' where a: "a = (g, y')" by (cases a)
  let ?u1 = "apply_event e u (Wait g)"
  let ?u2 = "apply_event e ?u1 (ScrollTo y')"
  let ?F = "if 0 < r \<and> r \<le> g then [TSE (Some y), TVE] else []"
  have g: "g < 16" using Cons.prems(3) a by simp
  note w = wait_armed [OF Cons.prems(1) g Cons.prems(2)]
  note ev = event_listening [OF w(1), of e y']
  have t2: "traced e R ?u2 (cs @ ?F)"
    using w(2) by (simp only: traced_kept [OF ev(2)])
  have r: "\<forall>g \<in> set (map fst gys). g < 16" using Cons.prems(3) by simp
  note ih = Cons.IH [OF ev(1) t2 r]
  have n: "now ?u2 = now u + g" using ev(3) w(3) by simp
  have c: "(cs @ ?F) @ (if 0 < r - g \<and> r - g \<le> sum_list (map fst gys)
                  then [TSE (Some (shown_at (r - g) y' gys)), TVE] else [])
         = cs @ (if 0 < r \<and> r \<le> sum_list (map fst (a # gys))
                  then [TSE (Some (shown_at r y (a # gys))), TVE] else [])"
  proof (cases "0 < r \<and> r \<le> g")
    case True
    then show ?thesis by (simp add: a)
  next
    case False
    then show ?thesis by (cases "r = 0") (auto simp: a)
  qed
  have m: "r - g - sum_list (map fst gys) = r - sum_list (map fst (a # gys))"
    by (simp add: a)
  have l: "last (y' # map snd gys) = last (y # map snd (a # gys))"
    by (simp add: a)
  have b: "scroll_burst e (a # gys) u = scroll_burst e gys ?u2"
    by (simp add: a)
  from ih have "armed (scroll_burst e gys ?u2) (last (y' # map snd gys)) k
      (r - g - sum_list (map fst gys))"
    by blast
  then have 1: "armed (scroll_burst e (a # gys) u) (last (y # map snd (a # gys))) k
      (r - sum_list (map fst (a # gys)))"
    by (simp only: m l b)
  from ih have "traced e R (scroll_burst e gys ?u2)
      ((cs @ ?F) @ (if 0 < r - g \<and> r - g \<le> sum_list (map fst gys)
                  then [TSE (Some (shown_at (r - g) y' gys)), TVE] else []))"
    by blast
  then have 2: "traced e R (scroll_burst e (a # gys) u)
      (cs @ (if 0 < r \<and> r \<le> sum_list (map fst (a # gys))
                  then [TSE (Some (shown_at r y (a # gys))), TVE] else []))"
    by (simp only: c b)
  from ih have "now (scroll_burst e gys ?u2) = now ?u2 + sum_list (map fst gys)"
    by blast
  then have 3: "now (scroll_burst e (a # gys) u) = now u + sum_list (map fst (a # gys))"
    by (simp add: b n a)
  from 1 2 3 show ?case by blast
qed

lemma refresh_step:
  assumes "traced e R u cs"
  shows "traced e R (refresh e st sc (u\<lparr>timers := ts, now := n\<rparr>)) (cs @ [TSE st, TVE])"
    and "timers (refresh e st sc (u\<lparr>timers := ts, now := n\<rparr>)) = ts"
    and "now (refresh e st sc (u\<lparr>timers := ts, now := n\<rparr>)) = n"
    and "persp_scrollTop (refresh e st sc (u\<lparr>timers := ts, now := n\<rparr>)) = persp_scrollTop u"
proof -
  show "traced e R (refresh e st sc (u\<lparr>timers := ts, now := n\<rparr>)) (cs @ [TSE st, TVE])"
    by (rule traced_refresh) (simp add: traced_frame assms)
  show "timers (refresh e st sc (u\<lparr>timers := ts, now := n\<rparr>)) = ts"
    "now (refresh e st sc (u\<lparr>timers := ts, now := n\<rparr>)) = n"
    "persp_scrollTop (refresh e st sc (u\<lparr>timers := ts, now := n\<rparr>)) = persp_scrollTop u"
    using refresh_keeps [of e st sc "u\<lparr>timers := ts, now := n\<rparr>"] by simp_all
qed

lemma run_until_bound:
  assumes "\<forall>t \<in> set (timers u). \<not> is_transition (cb t)"
  shows "isMenuOpen (run_until e T u) = isMenuOpen u \<and>
         listeners (run_until e T u) = listeners u \<and>
         next_timer (run_until e T u) = next_timer u \<and>
         scrollTimeout (run_until e T u) = scrollTimeout u \<and>
         now (run_until e T u) = max (now u) T"
  using assms
proof (induction e T u rule: run_until.induct)
  case (1 e T w)
  show ?case
  proof (cases "next_due T (timers w)")
    case None
    then show ?thesis by (simp add: run_until.simps [of e T w])
  next
    case (Some t)
    then have t: "t \<in> set (timers w)" "due t \<le> T" using next_due_Some by blast+
    with "1.prems" have nt: "\<not> is_transition (cb t)" by simp
    let ?u = "w\<lparr>timers := filter (\<lambda>u. tid u \<noteq> tid t) (timers w), now := max (now w) (due t)\<rparr>"
    from run_callback_refresh [OF nt, of e ?u] obtain st sc
      where f: "fire e t w = refresh e st sc ?u"
      by (auto simp: fire_def)
    note rk = refresh_keeps [of e st sc ?u]
    have "\<forall>x \<in> set (timers (fire e t w)). \<not> is_transition (cb x)"
      using "1.prems" rk by (simp add: f)
    note ih = "1.IH" [OF Some this]
    have ff: "isMenuOpen (fire e t w) = isMenuOpen w" "listeners (fire e t w) = listeners w"
      "next_timer (fire e t w) = next_timer w" "scrollTimeout (fire e t w) = scrollTimeout w"
      "now (fire e t w) = max (now w) (due t)"
      using rk by (simp_all add: f)
    have ru: "run_until e T w = run_until e T (fire e t w)"
      by (simp add: run_until.simps [of e T w] Some)
    have "max (max (now w) (due t)) T = max (now w) T"
      using t(2) by simp
    with ih ff show ?thesis
      unfolding ru by simp
  qed
qed

lemma quiet_armed:
  assumes a: "armed u y k r" and q: "16 \<le> q" and t: "traced e R u cs"
  shows "traced e R (apply_event e u (Wait q))
           (cs @ (if 0 < r \<and> r \<le> 16 then [TSE (Some y), TVE] else []) @ [TSE (Some y), TVE] @
              (if 16 < r \<and> r \<le> q then [TSE (Some y), TVE] else []))"
    and "timers (apply_event e u (Wait q)) = syncs k (now u + q) (r - q)"
    and "settled (apply_event e u (Wait q)) k (r - q)"
    and "now (apply_event e u (Wait q)) = now u + q"
proof -
  from a obtain i where i: "k < i"
    "timers u = syncs k (now u) r @ [\<lparr>tid = i, due = now u + 16, cb = ScrollRefresh y\<rparr>]"
    "i < next_timer u" "scrollTimeout u = Some i"
    by (auto simp: armed_def)
  from a have op: "isMenuOpen u" "0 < listeners u"
    by (simp_all add: armed_def)
  have "\<forall>t \<in> set (timers u). \<not> is_transition (cb t)"
    using i(2) by (simp add: syncs_def)
  note bd = run_until_bound [OF this, of e "now u + q"]
  from a have p: "persp_scrollTop u = y"
    by (simp add: armed_def)
  let ?T = "now u + q"
  let ?d = "\<lparr>tid = i, due = now u + 16, cb = ScrollRefresh y\<rparr>"
  let ?s = "\<lparr>tid = k, due = now u + r, cb = InitialSync True\<rparr>"
  let ?S = "[TSE (Some y), TVE]"
  have all: "traced e R (run_until e ?T u)
           (cs @ (if 0 < r \<and> r \<le> 16 then ?S else []) @ ?S @ (if 16 < r \<and> r \<le> q then ?S else [])) \<and>
         timers (run_until e ?T u) = syncs k ?T (r - q)"
  proof -
    consider (none) "r = 0" | (before) "0 < r" "r \<le> 16" | (after) "16 < r" "r \<le> q"
      | (later) "16 < r" "q < r"
      by linarith
    then show ?thesis
    proof cases
      case none
      then have ts: "timers u = [?d]" using i(2) by (simp add: syncs_def)
      let ?u1 = "u\<lparr>timers := [], now := max (now u) (due ?d)\<rparr>"
      let ?b = "Some \<lparr>box_scrollTop = persp_scrollTop ?u1, box_height = persp_height ?u1,
              box_offset_top = persp_offset_top ?u1\<rparr>"
      let ?v = "refresh e (Some y) ?b ?u1"
      note f = refresh_step [OF t, where st = "Some y" and sc = ?b
          and ts = "[]" and n = "max (now u) (due ?d)"]
      have "run_until e ?T u = run_until e ?T (run_callback e (cb ?d) ?u1)"
        using run_until_single [OF ts, of ?T e] q by simp
      also have "run_callback e (cb ?d) ?u1 = ?v"
        by (simp add: debounce_refresh)
      also have "run_until e ?T ?v = ?v\<lparr>now := max (now ?v) ?T\<rparr>"
        by (rule run_until_idle) (rule f(2))
      finally have eq: "run_until e ?T u = ?v\<lparr>now := max (now ?v) ?T\<rparr>" .
      from f(1,2) none show ?thesis
        by (simp add: eq traced_frame syncs_def)
    next
      case before
      then have ts: "timers u = [?s, ?d]" using i(2) by (simp add: syncs_def)
      let ?u1 = "u\<lparr>timers := [?d], now := max (now u) (due ?s)\<rparr>"
      let ?b1 = "Some \<lparr>box_scrollTop = persp_scrollTop ?u1, box_height = persp_height ?u1,
              box_offset_top = persp_offset_top ?u1\<rparr>"
      let ?v1 = "refresh e (Some y) ?b1 ?u1"
      note f1 = refresh_step [OF t, where st = "Some y" and sc = ?b1
          and ts = "[?d]" and n = "max (now u) (due ?s)"]
      have "run_until e ?T u = run_until e ?T (run_callback e (cb ?s) ?u1)"
        using run_until_pair [OF ts, of ?T e] before q i(1) by simp
      also have "run_callback e (cb ?s) ?u1 = ?v1"
        using p by (simp add: sync_refresh)
      finally have s1: "run_until e ?T u = run_until e ?T ?v1" .
      let ?u2 = "?v1\<lparr>timers := [], now := max (now ?v1) (due ?d)\<rparr>"
      let ?b2 = "Some \<lparr>box_scrollTop = persp_scrollTop ?u2, box_height = persp_height ?u2,
              box_offset_top = persp_offset_top ?u2\<rparr>"
      let ?v2 = "refresh e (Some y) ?b2 ?u2"
      note f2 = refresh_step [OF f1(1), where st = "Some y" and sc = ?b2
          and ts = "[]" and n = "max (now ?v1) (due ?d)"]
      have "run_until e ?T ?v1 = run_until e ?T (run_callback e (cb ?d) ?u2)"
        using run_until_single [OF f1(2), of ?T e] q by simp
      also have "run_callback e (cb ?d) ?u2 = ?v2"
        by (simp add: debounce_refresh)
      also have "run_until e ?T ?v2 = ?v2\<lparr>now := max (now ?v2) ?T\<rparr>"
        by (rule run_until_idle) (rule f2(2))
      finally have eq: "run_until e ?T u = ?v2\<lparr>now := max (now ?v2) ?T\<rparr>"
        using s1 by simp
      from f2(1,2) before q show ?thesis
        by (simp add: eq traced_frame syncs_def)
    next
      case after
      then have ts: "timers u = [?s, ?d]" using i(2) by (simp add: syncs_def)
      let ?u1 = "u\<lparr>timers := [?s], now := max (now u) (due ?d)\<rparr>"
      let ?b1 = "Some \<lparr>box_scrollTop = persp_scrollTop ?u1, box_height = persp_height ?u1,
              box_offset_top = persp_offset_top ?u1\<rparr>"
      let ?v1 = "refresh e (Some y) ?b1 ?u1"
      note f1 = refresh_step [OF t, where st = "Some y" and sc = ?b1
          and ts = "[?s]" and n = "max (now u) (due ?d)"]
      have "run_until e ?T u = run_until e ?T (run_callback e (cb ?d) ?u1)"
        using run_until_second [OF ts, of ?T e] after q i(1) by simp
      also have "run_callback e (cb ?d) ?u1 = ?v1"
        by (simp add: debounce_refresh)
      finally have s1: "run_until e ?T u = run_until e ?T ?v1" .
      let ?u2 = "?v1\<lparr>timers := [], now := max (now ?v1) (due ?s)\<rparr>"
      let ?b2 = "Some \<lparr>box_scrollTop = persp_scrollTop ?u2, box_height = persp_height ?u2,
              box_offset_top = persp_offset_top ?u2\<rparr>"
      let ?v2 = "refresh e (Some y) ?b2 ?u2"
      note f2 = refresh_step [OF f1(1), where st = "Some y" and sc = ?b2
          and ts = "[]" and n = "max (now ?v1) (due ?s)"]
      have "run_until e ?T ?v1 = run_until e ?T (run_callback e (cb ?s) ?u2)"
        using run_until_single [OF f1(2), of ?T e] after by simp
      also have "run_callback e (cb ?s) ?u2 = ?v2"
        using p f1(4) by (simp add: sync_refresh)
      also have "run_until e ?T ?v2 = ?v2\<lparr>now := max (now ?v2) ?T\<rparr>"
        by (rule run_until_idle) (rule f2(2))
      finally have eq: "run_until e ?T u = ?v2\<lparr>now := max (now ?v2) ?T\<rparr>"
        using s1 by simp
      from f2(1,2) after q show ?thesis
        by (simp add: eq traced_frame syncs_def)
    next
      case later
      then have ts: "timers u = [?s, ?d]" using i(2) by (simp add: syncs_def)
      let ?u1 = "u\<lparr>timers := [?s], now := max (now u) (due ?d)\<rparr>"
      let ?b1 = "Some \<lparr>box_scrollTop = persp_scrollTop ?u1, box_height = persp_height ?u1,
              box_offset_top = persp_offset_top ?u1\<rparr>"
      let ?v1 = "refresh e (Some y) ?b1 ?u1"
      note f1 = refresh_step [OF t, where st = "Some y" and sc = ?b1
          and ts = "[?s]" and n = "max (now u) (due ?d)"]
      have "run_until e ?T u = run_until e ?T (run_callback e (cb ?d) ?u1)"
        using run_until_second [OF ts, of ?T e] later q i(1) by simp
      also have "run_callback e (cb ?d) ?u1 = ?v1"
        by (simp add: debounce_refresh)
      also have "run_until e ?T ?v1 = ?v1\<lparr>now := max (now ?v1) ?T\<rparr>"
        using run_until_early [OF f1(2), of ?T e] later by simp
      finally have eq: "run_until e ?T u = ?v1\<lparr>now := max (now ?v1) ?T\<rparr>" .
      from f1(1,2) later q show ?thesis
        by (simp add: eq traced_frame syncs_def)
    qed
  qed
  then show "traced e R (apply_event e u (Wait q))
           (cs @ (if 0 < r \<and> r \<le> 16 then ?S else []) @ ?S @ (if 16 < r \<and> r \<le> q then ?S else []))"
    and ts: "timers (apply_event e u (Wait q)) = syncs k (now u + q) (r - q)"
    by (simp_all add: apply_event_def)
  show n: "now (apply_event e u (Wait q)) = now u + q"
    using bd by (simp add: apply_event_def)
  have "listening (run_until e ?T u) k (r - q)"
    using bd op i(1,3,4) all by (simp add: listening_def)
  then show "settled (apply_event e u (Wait q)) k (r - q)"
    using ts n by (simp add: settled_def apply_event_def)
qed

lemma idle_listening:
  assumes "timers u = syncs k (now u) r"
  shows "length (refreshes (calls (apply_event e u (Wait p)))) =
           length (refreshes (calls u)) + (if 0 < r \<and> r \<le> p then 1 else 0)"
proof -
  let ?T = "now u + p"
  let ?s = "\<lparr>tid = k, due = now u + r, cb = InitialSync True\<rparr>"
  consider (none) "r = 0" | (fires) "0 < r" "r \<le> p" | (later) "p < r"
    by linarith
  then have "length (refreshes (calls (run_until e ?T u))) =
           length (refreshes (calls u)) + (if 0 < r \<and> r \<le> p then 1 else 0)"
  proof cases
    case none
    then have "timers u = []" using assms by (simp add: syncs_def)
    from run_until_idle [OF this, of e ?T] none show ?thesis by simp
  next
    case fires
    then have ts: "timers u = [?s]" using assms by (simp add: syncs_def)
    let ?u1 = "u\<lparr>timers := [], now := max (now u) (due ?s)\<rparr>"
    let ?b = "Some \<lparr>box_scrollTop = persp_scrollTop ?u1, box_height = persp_height ?u1,
              box_offset_top = persp_offset_top ?u1\<rparr>"
    let ?v = "refresh e (Some (persp_scrollTop ?u1)) ?b ?u1"
    have "run_until e ?T u = run_until e ?T (run_callback e (cb ?s) ?u1)"
      using run_until_single [OF ts, of ?T e] fires by simp
    also have "run_callback e (cb ?s) ?u1 = ?v"
      by (simp add: sync_refresh)
    also have "run_until e ?T ?v = ?v\<lparr>now := max (now ?v) ?T\<rparr>"
      by (rule run_until_idle) (simp add: refresh_keeps)
    finally have eq: "run_until e ?T u = ?v\<lparr>now := max (now ?v) ?T\<rparr>" .
    show ?thesis
      using fires by (simp add: eq refresh_calls refreshes_def)
  next
    case later
    then have ts: "timers u = [?s]" using assms by (simp add: syncs_def)
    from run_until_early [OF ts, of ?T e] later show ?thesis by simp
  qed
  then show ?thesis by (simp add: apply_event_def)
qed

lemma shown_at_last:
  "sum_list (map fst gys) < r \<Longrightarrow> shown_at r y gys = last (y # map snd gys)"
proof (induction gys arbitrary: r y)
  case Nil
  then show ?case by simp
next
  case (Cons a gys)
  obtain g y' where a: "a = (g, y')" by (cases a)
  from Cons.prems have "sum_list (map fst gys) < r - g" "\<not> r \<le> g"
    by (simp_all add: a)
  with Cons.IH [of "r - g" y'] show ?case by (simp add: a)
qed

lemma openMenu_listen:
  assumes "\<not> isTransitioning w"
  shows "isMenuOpen (openMenu e w)" and "listeners (openMenu e w) = listeners w"
    and "scrollTimeout (openMenu e w) = scrollTimeout w"
    and "redefinable e' (openMenu e w) = redefinable e' w"
  using assms by (simp_all add: openMenu_def Let_def setTimeout_def redefinable_def)

lemma open_animate_listen:
  "isMenuOpen (open_animate u) = isMenuOpen u" "listeners (open_animate u) = listeners u"
  "scrollTimeout (open_animate u) = scrollTimeout u"
  "redefinable e (open_animate u) = redefinable e u"
  by (simp_all add: open_animate_def Let_def setTimeout_def redefinable_def)

lemma open_scroll_listen:
  "isMenuOpen (open_scroll u) = isMenuOpen u" "listeners (open_scroll u) = listeners u"
  "scrollTimeout (open_scroll u) = scrollTimeout u"
  "redefinable e (open_scroll u) = redefinable e u"
  by (simp_all add: open_scroll_def Let_def setTimeout_def redefinable_def)

lemma open_setup_listen:
  "isMenuOpen (open_setup u) = isMenuOpen u"
  "modalview u \<Longrightarrow> listeners (open_setup u) = listeners u + 1"
  "scrollTimeout (open_setup u) = scrollTimeout u"
  "redefinable e (open_setup u) = redefinable e u"
  by (simp_all add: open_setup_def setupScrollEffects_def Let_def setTimeout_def redefinable_def)

lemma redefinable_frame:
  "redefinable e (u\<lparr>timers := ts, now := n\<rparr>) = redefinable e u"
  by (simp add: redefinable_def)

lemma open_listening:
  fixes e :: env and w :: world
  assumes nt: "\<not> isTransitioning w" and ts: "timers w = []" and d: "350 \<le> d"
  defines "W \<equiv> opened e d w"
  shows "isMenuOpen W" and "listeners W = listeners w + 1"
    and "scrollTimeout W = scrollTimeout w" and "next_timer W = next_timer w + 4"
    and "timers W = syncs (next_timer w + 3) (now W) (550 - d)"
    and "redefinable e w \<Longrightarrow> redefinable e W"
proof -
  let ?T = "now w + d"
  note o = openMenu_world [OF nt, of e]
  note ol = openMenu_listen [OF nt, of e]
  define u1 where "u1 = openMenu e w"
  let ?t1 = "\<lparr>tid = next_timer w, due = now w + 50, cb = OpenAnimate\<rparr>"
  have f1: "timers u1 = [?t1]" "next_timer u1 = next_timer w + 1" "now u1 = now w"
    "persp_classes u1 =
           addClass [''perspective--modalview'', ''effect-rotate-left'']
             (removeClass [''perspective--modalview'', ''effect-rotate-left'',
                           ''effect-rotate-left--animate'', ''modalview''] (persp_classes w))"
    using o ts by (simp_all add: u1_def)
  have l1: "isMenuOpen u1" "listeners u1 = listeners w" "scrollTimeout u1 = scrollTimeout w"
    "redefinable e u1 = redefinable e w"
    using ol by (simp_all add: u1_def)
  define u2 where "u2 = run_callback e OpenAnimate (u1\<lparr>timers := [], now := max (now u1) (due ?t1)\<rparr>)"
  have s2: "run_until e ?T u1 = run_until e ?T u2"
    using run_until_single [OF f1(1), of ?T e] d by (simp add: u2_def)
  let ?t2 = "\<lparr>tid = next_timer w + 1, due = now w + 150, cb = OpenScroll\<rparr>"
  have f2: "timers u2 = [?t2]" "next_timer u2 = next_timer w + 2" "now u2 = now w + 50"
    "persp_classes u2 = opened_classes (persp_classes w)"
    using f1 by (simp_all add: u2_def run_callback_def open_animate_world opened_classes_def)
  have l2: "isMenuOpen u2" "listeners u2 = listeners w" "scrollTimeout u2 = scrollTimeout w"
    "redefinable e u2 = redefinable e w"
    using l1 by (simp_all add: u2_def run_callback_def open_animate_listen redefinable_frame)
  have mv: "hasClass (opened_classes cs) ''perspective--modalview''" for cs
    by (simp add: opened_classes_def hasClass_addClass set_addClass)
  define u3 where "u3 = run_callback e OpenScroll (u2\<lparr>timers := [], now := max (now u2) (due ?t2)\<rparr>)"
  have s3: "run_until e ?T u2 = run_until e ?T u3"
    using run_until_single [OF f2(1), of ?T e] d by (simp add: u3_def)
  let ?t3 = "\<lparr>tid = next_timer w + 2, due = now w + 350, cb = OpenSetup\<rparr>"
  have f3: "timers u3 = [?t3]" "next_timer u3 = next_timer w + 3" "now u3 = now w + 150"
    "persp_classes u3 = opened_classes (persp_classes w)"
    using f2 by (simp_all add: u3_def run_callback_def open_scroll_world)
  have l3: "isMenuOpen u3" "listeners u3 = listeners w" "scrollTimeout u3 = scrollTimeout w"
    "redefinable e u3 = redefinable e w"
    using l2 by (simp_all add: u3_def run_callback_def open_scroll_listen redefinable_frame)
  define u4 where "u4 = run_callback e OpenSetup (u3\<lparr>timers := [], now := max (now u3) (due ?t3)\<rparr>)"
  have s4: "run_until e ?T u3 = run_until e ?T u4"
    using run_until_single [OF f3(1), of ?T e] d by (simp add: u4_def)
  let ?t4 = "\<lparr>tid = next_timer w + 3, due = now w + 550, cb = InitialSync True\<rparr>"
  have m3: "modalview (u3\<lparr>timers := [], now := max (now u3) (due ?t3)\<rparr>)"
    using mv f3(4) by (simp add: modalview_def)
  have f4: "timers u4 = [?t4]" "next_timer u4 = next_timer w + 4" "now u4 = now w + 350"
    using f3 m3 by (simp_all add: u4_def run_callback_def open_setup_world)
  have l4: "isMenuOpen u4" "listeners u4 = listeners w + 1" "scrollTimeout u4 = scrollTimeout w"
    "redefinable e u4 = redefinable e w"
    using l3 open_setup_listen(2) [OF m3]
    by (simp_all add: u4_def run_callback_def open_setup_listen redefinable_frame)
  have start: "W = run_until e ?T u4"
    using s2 s3 s4 by (simp add: W_def opened_def u1_def)
  have all: "isMenuOpen W \<and> listeners W = listeners w + 1 \<and> scrollTimeout W = scrollTimeout w \<and>
      next_timer W = next_timer w + 4 \<and>
      timers W = syncs (next_timer w + 3) (now W) (550 - d) \<and>
      (redefinable e w \<longrightarrow> redefinable e W)"
  proof (cases "d < 550")
    case True
    then have "W = u4\<lparr>now := max (now u4) ?T\<rparr>"
      using run_until_early [OF f4(1), of ?T e] start by simp
    with f4 l4 d True show ?thesis by (simp add: syncs_def redefinable_def)
  next
    case False
    let ?u = "u4\<lparr>timers := [], now := max (now u4) (due ?t4)\<rparr>"
    define u5 where "u5 = run_callback e (InitialSync True) ?u"
    have s5: "run_until e ?T u4 = run_until e ?T u5"
      using run_until_single [OF f4(1), of ?T e] False by (simp add: u5_def)
    have f5: "timers u5 = []" "next_timer u5 = next_timer w + 4" "now u5 = now w + 550"
      "isMenuOpen u5" "listeners u5 = listeners w + 1" "scrollTimeout u5 = scrollTimeout w"
      using f4 l4 by (simp_all add: u5_def run_callback_def refresh_keeps)
    have r5: "redefinable e w \<Longrightarrow> redefinable e u5"
      using l4(4) by (simp add: u5_def sync_refresh redefinable_refresh redefinable_frame)
    have "W = u5\<lparr>now := max (now u5) ?T\<rparr>"
      using start s5 run_until_idle [OF f5(1), of e ?T] by simp
    with f5 r5 False show ?thesis by (simp add: syncs_def redefinable_def)
  qed
  from all show "isMenuOpen W" "listeners W = listeners w + 1"
    "scrollTimeout W = scrollTimeout w" "next_timer W = next_timer w + 4"
    "timers W = syncs (next_timer w + 3) (now W) (550 - d)"
    "redefinable e w \<Longrightarrow> redefinable e W"
    by simp_all
qed

lemma opened_listening:
  assumes "at_rest w" and "timers_ok w" and "350 \<le> d"
  shows "listening (opened e d w) (next_timer w + 3) (550 - d)"
proof -
  from assms(1) have r: "\<not> isTransitioning w" "timers w = []" by (simp_all add: at_rest_def)
  note o = open_listening [OF r assms(3), of e]
  from assms(2) r have st: "\<And>j. scrollTimeout w = Some j \<Longrightarrow> j < next_timer w"
    by (simp add: timers_ok_def split: option.splits)
  have "\<forall>j. scrollTimeout (opened e d w) = Some j \<longrightarrow>
      j \<noteq> next_timer w + 3 \<and> j < next_timer (opened e d w)"
  proof (intro allI impI)
    fix j
    assume "scrollTimeout (opened e d w) = Some j"
    with o(3) have "scrollTimeout w = Some j" by simp
    with st have "j < next_timer w" by simp
    with o(4) show "j \<noteq> next_timer w + 3 \<and> j < next_timer (opened e d w)" by simp
  qed
  with o(1,2,4,5) show ?thesis
    by (simp add: listening_def)
qed

lemma burst_calls:
  fixes r G q :: nat
  assumes "16 \<le> q" and "G < r \<Longrightarrow> s = y"
  shows "((if 0 < r \<and> r \<le> G then [TSE (Some s), TVE] else []) @
          (if 0 < r - G \<and> r - G \<le> 16 then [TSE (Some y), TVE] else []) @ [TSE (Some y), TVE] @
          (if 16 < r - G \<and> r - G \<le> q then [TSE (Some y), TVE] else []))
       = (if 0 < r \<and> r \<le> G + 16 then [TSE (Some s), TVE] else []) @ [TSE (Some y), TVE] @
         (if G + 16 < r \<and> r \<le> G + q then [TSE (Some s), TVE] else [])"
proof -
  consider "r = 0" | "0 < r" "r \<le> G" | "G < r" "r \<le> G + 16" | "G + 16 < r" "r \<le> G + q"
    | "G + q < r"
    by linarith
  then show ?thesis
  proof cases
    case 1
    then show ?thesis by simp
  next
    case 2
    then show ?thesis by simp
  next
    case 3
    with assms(2) show ?thesis by simp
  next
    case 4
    with assms show ?thesis by simp
  next
    case 5
    with assms(1) show ?thesis by simp
  qed
qed

lemma opened_settled:
  assumes "at_rest w" and "timers_ok w" and "350 \<le> d"
  shows "settled (opened e d w) (next_timer w + 3) (550 - d)"
proof -
  from assms(1) have r: "\<not> isTransitioning w" "timers w = []" by (simp_all add: at_rest_def)
  from opened_listening [OF assms, of e] open_listening(5) [OF r assms(3), of e]
  show ?thesis by (simp add: settled_def)
qed

lemma burst_settled:
  assumes s: "settled u k r" and g: "\<forall>g \<in> set (map fst gys). g < 16" and q: "16 \<le> q"
    and t: "traced e R u cs"
  shows "settled (burst e y0 gys q u) k (r - (sum_list (map fst gys) + q))"
    and "traced e R (burst e y0 gys q u)
           (cs @ (if 0 < r \<and> r \<le> sum_list (map fst gys) + 16
                  then [TSE (Some (shown_at r y0 gys)), TVE] else []) @
              [TSE (Some (last (y0 # map snd gys))), TVE] @
              (if sum_list (map fst gys) + 16 < r \<and> r \<le> sum_list (map fst gys) + q
               then [TSE (Some (shown_at r y0 gys)), TVE] else []))"
proof -
  let ?G = "sum_list (map fst gys)"
  let ?y = "last (y0 # map snd gys)"
  let ?s = "shown_at r y0 gys"
  let ?wb = "scroll_burst e gys (apply_event e u (ScrollTo y0))"
  from s have l: "listening u k r" by (simp add: settled_def)
  note ev = event_listening [OF l, of e y0]
  have t0: "traced e R (apply_event e u (ScrollTo y0)) cs"
    using t by (simp only: traced_kept [OF ev(2)])
  from burst_armed [OF ev(1) t0 g]
  have b: "armed ?wb ?y k (r - ?G)"
    "traced e R ?wb (cs @ (if 0 < r \<and> r \<le> ?G then [TSE (Some ?s), TVE] else []))"
    by blast+
  note qt = quiet_armed [OF b(1) q b(2)]
  have sy: "?G < r \<Longrightarrow> ?s = ?y" by (rule shown_at_last)
  note X = burst_calls [OF q sy]
  from qt(3) show "settled (burst e y0 gys q u) k (r - (?G + q))"
    by (simp add: burst_def)
  from qt(1) have "traced e R (burst e y0 gys q u)
      (cs @ ((if 0 < r \<and> r \<le> ?G then [TSE (Some ?s), TVE] else []) @
          (if 0 < r - ?G \<and> r - ?G \<le> 16 then [TSE (Some ?y), TVE] else []) @ [TSE (Some ?y), TVE] @
          (if 16 < r - ?G \<and> r - ?G \<le> q then [TSE (Some ?y), TVE] else [])))"
    by (simp only: burst_def append_assoc)
  then show "traced e R (burst e y0 gys q u)
           (cs @ (if 0 < r \<and> r \<le> ?G + 16 then [TSE (Some ?s), TVE] else []) @ [TSE (Some ?y), TVE] @
              (if ?G + 16 < r \<and> r \<le> ?G + q then [TSE (Some ?s), TVE] else []))"
    by (simp only: X)
qed

lemma bursts_settled:
  assumes "settled u k r" and "spaced bs" and "R \<longrightarrow> redefinable e u"
  shows "settled (bursts e bs u) k (r - span bs) \<and> (R \<longrightarrow> redefinable e (bursts e bs u))"
  using assms
proof (induction bs arbitrary: u r)
  case Nil
  then show ?case by simp
next
  case (Cons a bs)
  obtain y0 gys q where a: "a = (y0, gys, q)" by (cases a)
  from Cons.prems(2) have g: "\<forall>g \<in> set (map fst gys). g < 16" and q: "16 \<le> q"
    and sp: "spaced bs"
    by (simp_all add: a)
  have t: "traced e R u (calls u)" using Cons.prems(3) by (simp add: traced_def)
  note b = burst_settled [OF Cons.prems(1) g q t, of y0]
  from b(2) have rd: "R \<longrightarrow> redefinable e (burst e y0 gys q u)"
    by (simp add: traced_def)
  from Cons.IH [OF b(1) sp rd] show ?case
    by (simp add: a add.assoc)
qed

lemma debounce_timers_syncs:
  "filter (\<lambda>t. case cb t of ScrollRefresh scrollTop \<Rightarrow> True | _ \<Rightarrow> False) (syncs k n r) = []"
  by (simp add: syncs_def)

lemma refreshes_pass: "refreshes [TSE x, TVE] = [TSE x]" "refreshes [] = []"
  by (simp_all add: refreshes_def)

text \<open>
  C5. From a page at rest, \<^verbatim>\<open>openMenu\<close> and 350 ms or more, so that its three phases
  have run: the last of them binds the scroll handler (line 234) and schedules the first
  pass over the effects for 200 ms later (line 246). Then any number of earlier bursts
  of scroll events on the overlay, each with its quiet time; then a burst of scroll
  events, each less than 16 ms after the one before, and after the last of them 16 ms
  or more without an event. So the burst is any of the bursts of any sequence of
  scroll events on the open overlay.

  After the burst one callback of the handler is pending, the one that the last event
  scheduled, for the offset of the last event and due 16 ms after it: each event has
  cancelled the callback of the event before. No refresh of the handler has run in the
  burst.

  After the quiet time the burst has produced one refresh and no more, whatever the
  number of events: one call of \<^verbatim>\<open>triggerScrollEffects\<close> with the offset of the last
  event, followed by one call of \<^verbatim>\<open>triggerVideoEffects\<close> when the three scroll
  properties are redefinable. The only other refresh in that time is the first pass
  that the open scheduled: it runs once when its time, 550 ms after the click, falls
  in the burst or in the quiet time, with the offset \<open>s\<close> that the overlay shows then,
  before the refresh of the burst when it is due no later. That pass runs without any
  scroll event as well: over the same time there is exactly one refresh more with
  the burst than without it. No callback of the handler is left pending.
\<close>

theorem debounced_refresh:
  fixes e :: env and w :: world and d q :: nat and y0 :: int and gys :: "(nat \<times> int) list"
    and bs :: "(int \<times> (nat \<times> int) list \<times> nat) list"
  assumes "at_rest w" and "timers_ok w" and "350 \<le> d" and "spaced bs"
    and "\<forall>g \<in> set (map fst gys). g < 16" and "16 \<le> q"
  defines "w1 \<equiv> bursts e bs (opened e d w)"
  defines "wb \<equiv> scroll_burst e gys (apply_event e w1 (ScrollTo y0))"
  defines "G \<equiv> sum_list (map fst gys)" and "r \<equiv> 550 - (d + span bs)"
    and "y \<equiv> last (y0 # map snd gys)"
  defines "s \<equiv> shown_at r y0 gys"
  defines "X \<equiv> (if 0 < r \<and> r \<le> G + 16 then [TSE (Some s), TVE] else []) @ [TSE (Some y), TVE] @
                (if G + 16 < r \<and> r \<le> G + q then [TSE (Some s), TVE] else [])"
  shows "(\<exists>i. scrollTimeout wb = Some i \<and>
              debounce_timers wb = [\<lparr>tid = i, due = now wb + 16, cb = ScrollRefresh y\<rparr>]) \<and>
         refreshes (calls wb) =
           refreshes (calls w1) @ (if 0 < r \<and> r \<le> G then [TSE (Some s)] else []) \<and>
         refreshes (calls (apply_event e wb (Wait q))) = refreshes (calls w1 @ X) \<and>
         (redefinable e w \<longrightarrow> calls (apply_event e wb (Wait q)) = calls w1 @ X) \<and>
         length (refreshes (calls (apply_event e wb (Wait q)))) =
           length (refreshes (calls (apply_event e w1 (Wait (G + q))))) + 1 \<and>
         debounce_timers (apply_event e wb (Wait q)) = []"
proof -
  let ?k = "next_timer w + 3"
  let ?R = "redefinable e w"
  let ?Fb = "if 0 < r \<and> r \<le> G then [TSE (Some s), TVE] else []"
  from assms(1) have rest: "\<not> isTransitioning w" "timers w = []" by (simp_all add: at_rest_def)
  have rd: "?R \<longrightarrow> redefinable e (opened e d w)"
    using open_listening(6) [OF rest assms(3), of e] by simp
  have "550 - d - span bs = r" by (simp add: r_def)
  with bursts_settled [OF opened_settled [OF assms(1-3)] assms(4) rd]
  have st: "settled w1 ?k r" and rd1: "?R \<longrightarrow> redefinable e w1"
    by (simp_all add: w1_def)
  from st have l: "listening w1 ?k r" and ts: "timers w1 = syncs ?k (now w1) r"
    by (simp_all add: settled_def)
  have t1: "traced e ?R w1 (calls w1)"
    using rd1 by (simp add: traced_def)
  note ev = event_listening [OF l, of e y0]
  have t0: "traced e ?R (apply_event e w1 (ScrollTo y0)) (calls w1)"
    using t1 by (simp only: traced_kept [OF ev(2)])
  from burst_armed [OF ev(1) t0 assms(5)]
  have b: "armed wb y ?k (r - G)" "traced e ?R wb (calls w1 @ ?Fb)"
    unfolding wb_def y_def G_def s_def by blast+
  from b(1) obtain i where i: "scrollTimeout wb = Some i"
    "timers wb = syncs ?k (now wb) (r - G) @ [\<lparr>tid = i, due = now wb + 16, cb = ScrollRefresh y\<rparr>]"
    by (auto simp: armed_def)
  have c1: "\<exists>i. scrollTimeout wb = Some i \<and>
              debounce_timers wb = [\<lparr>tid = i, due = now wb + 16, cb = ScrollRefresh y\<rparr>]"
    using i by (simp add: debounce_timers_def debounce_timers_syncs)
  have c2: "refreshes (calls wb) =
           refreshes (calls w1) @ (if 0 < r \<and> r \<le> G then [TSE (Some s)] else [])"
    using b(2) by (simp add: traced_def refreshes_append refreshes_pass)
  have sy: "G < r \<Longrightarrow> s = y"
    unfolding s_def y_def G_def by (rule shown_at_last)
  note qt = quiet_armed [OF b(1) assms(6) b(2)]
  have X: "?Fb @ (if 0 < r - G \<and> r - G \<le> 16 then [TSE (Some y), TVE] else []) @
            [TSE (Some y), TVE] @ (if 16 < r - G \<and> r - G \<le> q then [TSE (Some y), TVE] else []) = X"
    unfolding X_def by (rule burst_calls [OF assms(6) sy])
  have tW: "traced e ?R (apply_event e wb (Wait q)) (calls w1 @ X)"
    using qt(1) X by simp
  then have c3: "refreshes (calls (apply_event e wb (Wait q))) = refreshes (calls w1 @ X)"
    and c4: "?R \<longrightarrow> calls (apply_event e wb (Wait q)) = calls w1 @ X"
    by (simp_all add: traced_def)
  have "length (refreshes X) = 1 + (if 0 < r \<and> r \<le> G + q then 1 else 0)"
    using assms(6) by (auto simp: X_def refreshes_def)
  moreover have "length (refreshes (calls (apply_event e w1 (Wait (G + q))))) =
      length (refreshes (calls w1)) + (if 0 < r \<and> r \<le> G + q then 1 else 0)"
    by (rule idle_listening [OF ts])
  ultimately have c5: "length (refreshes (calls (apply_event e wb (Wait q)))) =
           length (refreshes (calls (apply_event e w1 (Wait (G + q))))) + 1"
    using c3 by (simp add: refreshes_append)
  have c6: "debounce_timers (apply_event e wb (Wait q)) = []"
    by (simp add: debounce_timers_def qt(2) debounce_timers_syncs)
  from c1 c2 c3 c4 c5 c6 show ?thesis by blast
qed

theorem debounced_refresh_witness:
  "at_rest page0 \<and> timers_ok page0 \<and> redefinable env0 page0 \<and>
   calls (opened env0 350 page0) = [] \<and>
   calls (apply_event env0
            (scroll_burst env0 [(2, 710), (2, 720), (2, 730), (2, 740)]
               (apply_event env0 (opened env0 350 page0) (ScrollTo 700)))
            (Wait 20)) = [TSE (Some 740), TVE] \<and>
   calls (bursts env0 [(600, [(5, 610)], 115)] (opened env0 420 page0)) = [TSE (Some 610), TVE] \<and>
   calls (apply_event env0
            (scroll_burst env0 [(4, 710), (4, 720), (4, 730), (4, 740)]
               (apply_event env0 (bursts env0 [(600, [(5, 610)], 115)] (opened env0 420 page0))
                  (ScrollTo 700)))
            (Wait 20)) =
     [TSE (Some 610), TVE, TSE (Some 720), TVE, TSE (Some 740), TVE]"
proof -
  have a: "at_rest page0" by (simp add: at_rest_def page0_def)
  have b: "timers_ok page0" by (simp add: timers_ok_def page0_def)
  have c: "redefinable env0 page0"
    by (simp add: redefinable_def page0_def env0_def original_descriptor_def configurable_def
        Element_prototype_scrollTop_def)
  have o1: "calls (opened env0 350 page0) = []" by code_simp
  have o2: "calls (bursts env0 [(600, [(5, 610)], 115)] (opened env0 420 page0)) =
      [TSE (Some 610), TVE]"
    by code_simp
  have d: "(350::nat) \<le> 350" "(350::nat) \<le> 420" "(16::nat) \<le> 20" by simp_all
  have s1: "spaced []" and s2: "spaced [(600, [(5, 610)], 115)]" by simp_all
  have g1: "\<forall>g \<in> set (map fst [(2, 710), (2, 720), (2, 730), (2::nat, 740::int)]). g < 16"
    by simp
  have g2: "\<forall>g \<in> set (map fst [(4, 710), (4, 720), (4, 730), (4::nat, 740::int)]). g < 16"
    by simp
  note t1 = debounced_refresh [OF a b d(1) s1 g1 d(3), of env0 700]
  note t2 = debounced_refresh [OF a b d(2) s2 g2 d(3), of env0 700]
  from t1 c have "calls (apply_event env0
            (scroll_burst env0 [(2, 710), (2, 720), (2, 730), (2, 740)]
               (apply_event env0 (opened env0 350 page0) (ScrollTo 700)))
            (Wait 20)) = calls (opened env0 350 page0) @ [TSE (Some 740), TVE]"
    by simp
  moreover from t2 c have "calls (apply_event env0
            (scroll_burst env0 [(4, 710), (4, 720), (4, 730), (4, 740)]
               (apply_event env0 (bursts env0 [(600, [(5, 610)], 115)] (opened env0 420 page0))
                  (ScrollTo 700)))
            (Wait 20)) =
        calls (bursts env0 [(600, [(5, 610)], 115)] (opened env0 420 page0)) @
          [TSE (Some 720), TVE, TSE (Some 740), TVE]"
    by simp
  ultimately show ?thesis
    using a b c o1 o2 by simp
qed

subsection \<open>triggerVideoEffects: what a step and a pass change\<close>

lemma static_stage: "static (stage x) = static x"
  by (simp add: static_def stage_def load_def split: option.splits)

lemma static_start: "static (start x) = static x"
  by (simp add: static_def start_def play_def)

lemma static_fade: "static (fade x) = static x"
  by (simp add: static_def fade_def)

lemma static_reveal: "static (reveal x) = static x"
  using filter_addClass [of "[''scroll-fx-in-range'']" "[''scroll-fx-in-range'']" "el_classes x"]
  by (simp add: static_def reveal_def removeClass_filter)

lemma static_hasClass:
  "static x = static y \<Longrightarrow> c \<noteq> ''scroll-fx-in-range'' \<Longrightarrow>
   hasClass (el_classes x) c = hasClass (el_classes y) c"
proof -
  assume s: "static x = static y" and c: "c \<noteq> ''scroll-fx-in-range''"
  then have "set (removeClass [''scroll-fx-in-range''] (el_classes x))
      = set (removeClass [''scroll-fx-in-range''] (el_classes y))"
    by (simp add: static_def)
  then have "(c \<in> set (removeClass [''scroll-fx-in-range''] (el_classes x)))
      = (c \<in> set (removeClass [''scroll-fx-in-range''] (el_classes y)))"
    by simp
  with c show ?thesis by (simp add: removeClass_filter hasClass_def)
qed

lemma ancestors_less: "a \<in> set (ancestors els i) \<Longrightarrow> a < i"
proof (induction els i rule: ancestors.induct)
  case (1 els i)
  show ?case
  proof (cases "parent (els ! i)")
    case None
    with "1.prems" show ?thesis by (simp add: ancestors.simps [of els i])
  next
    case (Some p)
    show ?thesis
    proof (cases "p < i \<and> i < length els")
      case True
      with Some "1.prems" have "a = p \<or> a \<in> set (ancestors els p)"
        by (simp add: ancestors.simps [of els i])
      with "1.IH" [OF Some True] True show ?thesis by auto
    next
      case False
      with Some "1.prems" show ?thesis by (simp add: ancestors.simps [of els i])
    qed
  qed
qed

lemma static_nth:
  "map static els' = map static els \<Longrightarrow> k < length els \<Longrightarrow> static (els' ! k) = static (els ! k)"
  by (metis length_map nth_map)

lemma static_length: "map static els' = map static els \<Longrightarrow> length els' = length els"
  by (metis length_map)

lemma ancestors_outside: "\<not> i < length els \<Longrightarrow> ancestors els i = []"
  by (simp add: ancestors.simps [of els i] split: option.splits)

lemma ancestors_cong:
  assumes eq: "map static els' = map static els"
  shows "ancestors els' i = ancestors els i"
proof (induction i rule: less_induct)
  case (less i)
  note len = static_length [OF eq]
  show ?case
  proof (cases "i < length els")
    case False
    with len show ?thesis by (simp add: ancestors_outside)
  next
    case True
    from static_nth [OF eq True] have p: "parent (els' ! i) = parent (els ! i)"
      by (simp add: static_def)
    show ?thesis
    proof (cases "parent (els ! i)")
      case None
      with p show ?thesis by (simp add: ancestors.simps [of _ i])
    next
      case (Some q)
      show ?thesis
      proof (cases "q < i")
        case True
        from less.IH [OF this] Some p len show ?thesis
          by (simp add: ancestors.simps [of _ i])
      next
        case False
        with Some p show ?thesis by (simp add: ancestors.simps [of _ i])
      qed
    qed
  qed
qed

lemma resolve_cong:
  assumes eq: "map static els' = map static els" and i: "i < length els"
  shows "videoElement_of els' i = videoElement_of els i"
    and "videoContainer_of els' i = videoContainer_of els i"
proof -
  note len = static_length [OF eq]
  have vid: "is_video (els' ! k) = is_video (els ! k)" if "k < length els" for k
    using static_nth [OF eq that] by (simp add: static_def)
  have cls: "hasClass (el_classes (els' ! k)) ''video-bg-container''
      = hasClass (el_classes (els ! k)) ''video-bg-container''" if "k < length els" for k
    using static_nth [OF eq that] by (rule static_hasClass) simp
  have "find_video els' i = find_video els i"
    unfolding find_video_def
    by (rule find_cong) (simp_all add: len vid ancestors_cong [OF eq])
  with vid [OF i] show "videoElement_of els' i = videoElement_of els i"
    by (simp add: videoElement_of_def)
  have "k < length els" if "k \<in> set (i # ancestors els i)" for k
    using that i ancestors_less [of k els i] by auto
  then have "closest els' ''video-bg-container'' i = closest els ''video-bg-container'' i"
    unfolding closest_def
    by (intro find_cong) (simp_all add: ancestors_cong [OF eq] cls)
  with cls [OF i] show "videoContainer_of els' i = videoContainer_of els i"
    by (simp add: videoContainer_of_def)
qed

lemma inViewport_cong: "static x = static y \<Longrightarrow> inViewport b x = inViewport b y"
  by (simp add: static_def inViewport_def)

lemma videoElement_is_video:
  "videoElement_of els i = Some v \<Longrightarrow> i < length els \<Longrightarrow> is_video (els ! v) \<and> v < length els"
  by (auto simp: videoElement_of_def find_video_def find_Some_iff split: if_splits)

lemma videoContainer_bound:
  "videoContainer_of els i = Some c \<Longrightarrow> i < length els \<Longrightarrow> c < length els"
proof -
  assume a: "videoContainer_of els i = Some c" and i: "i < length els"
  then have "c = i \<or> c \<in> set (i # ancestors els i)"
    by (auto simp: videoContainer_of_def closest_def find_Some_iff split: if_splits
        dest: nth_mem)
  with ancestors_less [of c els i] i show ?thesis by auto
qed

lemma static_touch: "static (touch a b c x) = static x"
  by (simp add: touch_def static_stage static_start static_reveal static_fade)

lemma fx_out_nth:
  "c < length els \<Longrightarrow> k < length els \<Longrightarrow> fx_out c els ! k = touch False (k = v) (k = c) (els ! k)"
  by (simp add: fx_out_def touch_def nth_list_update)

lemma fx_in_nth:
  "v < length els \<Longrightarrow> c < length els \<Longrightarrow> k < length els \<Longrightarrow>
   fx_in v c els ! k = touch True (k = v) (k = c) (els ! k)"
  by (simp add: fx_in_def Let_def touch_def nth_list_update)

lemma video_fx_step:
  assumes "video_fx sc els j = Inr els1" and j: "j < length els"
  shows "length els1 = length els"
    and "(videoElement_of els j = None \<and> els1 = els) \<or>
         (\<exists>v c b. sc = Some b \<and> videoElement_of els j = Some v \<and>
            videoContainer_of els j = Some c \<and> v < length els \<and> c < length els \<and>
            (\<forall>k < length els.
               els1 ! k = touch (inViewport b (els ! c)) (k = v) (k = c) (els ! k)))"
proof -
  show "length els1 = length els"
    using assms(1)
    by (auto simp: video_fx_def fx_in_def fx_out_def Let_def split: option.splits if_splits)
  show "(videoElement_of els j = None \<and> els1 = els) \<or>
         (\<exists>v c b. sc = Some b \<and> videoElement_of els j = Some v \<and>
            videoContainer_of els j = Some c \<and> v < length els \<and> c < length els \<and>
            (\<forall>k < length els.
               els1 ! k = touch (inViewport b (els ! c)) (k = v) (k = c) (els ! k)))"
  proof (cases "videoElement_of els j")
    case None
    with assms(1) show ?thesis by (simp add: video_fx_def)
  next
    case (Some v)
    with assms(1) obtain c b where c: "videoContainer_of els j = Some c" and b: "sc = Some b"
      and r: "els1 = (if inViewport b (els ! c) then fx_in v c els else fx_out c els)"
      by (auto simp: video_fx_def split: option.splits)
    from videoElement_is_video [OF Some j] have v: "v < length els" by simp
    from videoContainer_bound [OF c j] have cl: "c < length els" .
    have "\<forall>k < length els. els1 ! k = touch (inViewport b (els ! c)) (k = v) (k = c) (els ! k)"
      using r v cl fx_in_nth [OF v cl] fx_out_nth [OF cl, of _ v] by auto
    with Some c b v cl show ?thesis by blast
  qed
qed

lemma video_fx_static:
  assumes "video_fx sc els j = Inr els1" and "j < length els"
  shows "map static els1 = map static els"
proof (rule nth_equalityI)
  note st = video_fx_step [OF assms]
  show "length (map static els1) = length (map static els)" using st(1) by simp
  fix k assume "k < length (map static els1)"
  then have k: "k < length els" using st(1) by simp
  from st(2) k have "static (els1 ! k) = static (els ! k)"
    by (auto simp: static_touch)
  with k st(1) show "map static els1 ! k = map static els ! k" by simp
qed

text \<open>An invariant of the loop.\<close>

lemma each_fx_invariant:
  assumes "each_fx sc js els = (els', r)" and "Q els"
    and "\<And>els j els1. Q els \<Longrightarrow> j \<in> set js \<Longrightarrow> video_fx sc els j = Inr els1 \<Longrightarrow> Q els1"
  shows "Q els'"
  using assms
proof (induction js arbitrary: els)
  case Nil
  then show ?case by simp
next
  case (Cons j js)
  show ?case
  proof (cases "video_fx sc els j")
    case (Inl err)
    with Cons.prems show ?thesis by simp
  next
    case (Inr els1)
    with Cons.prems(1) have e: "each_fx sc js els1 = (els', r)" by simp
    have q: "Q els1" by (rule Cons.prems(3) [OF Cons.prems(2) _ Inr]) simp
    have step: "\<And>els k els1. Q els \<Longrightarrow> k \<in> set js \<Longrightarrow> video_fx sc els k = Inr els1 \<Longrightarrow> Q els1"
      using Cons.prems(3) by (meson list.set_intros(2))
    show ?thesis
      by (rule Cons.IH [OF e q step])
  qed
qed

text \<open>In a loop that runs to its end, what the step at \<open>i\<close> establishes and the other
  steps keep holds at the end.\<close>

lemma each_fx_establish:
  assumes "each_fx sc js els = (els', None)" and "i \<in> set js" and "Q els"
    and "\<And>els j els1. Q els \<Longrightarrow> j \<in> set js \<Longrightarrow> video_fx sc els j = Inr els1 \<Longrightarrow> Q els1"
    and "\<And>els els1. Q els \<Longrightarrow> video_fx sc els i = Inr els1 \<Longrightarrow> R els1"
    and "\<And>els j els1. R els \<Longrightarrow> j \<in> set js \<Longrightarrow> video_fx sc els j = Inr els1 \<Longrightarrow> R els1"
  shows "R els'"
  using assms
proof (induction js arbitrary: els)
  case Nil
  then show ?case by simp
next
  case (Cons j js)
  from Cons.prems(1) obtain els1 where s: "video_fx sc els j = Inr els1"
    and e: "each_fx sc js els1 = (els', None)"
    by (cases "video_fx sc els j") auto
  have q: "Q els1" by (rule Cons.prems(4) [OF Cons.prems(3) _ s]) simp
  have stepQ: "\<And>els k els1. Q els \<Longrightarrow> k \<in> set js \<Longrightarrow> video_fx sc els k = Inr els1 \<Longrightarrow> Q els1"
    using Cons.prems(4) by (meson list.set_intros(2))
  have stepR: "\<And>els k els1. R els \<Longrightarrow> k \<in> set js \<Longrightarrow> video_fx sc els k = Inr els1 \<Longrightarrow> R els1"
    using Cons.prems(6) by (meson list.set_intros(2))
  show ?case
  proof (cases "j = i")
    case True
    with Cons.prems(3,5) s have "R els1" by blast
    with e show ?thesis
      by (rule each_fx_invariant) (rule stepR)
  next
    case False
    with Cons.prems(2) have "i \<in> set js" by simp
    from e this q stepQ Cons.prems(5) stepR show ?thesis
      by (rule Cons.IH)
  qed
qed

lemma find_Some_mem: "find P xs = Some x \<Longrightarrow> x \<in> set xs \<and> P x"
  by (induction xs) (auto split: if_splits)

lemma matched_bound: "j \<in> set (matched els) \<Longrightarrow> j < length els"
  by (simp add: matched_def)

lemma matched_kind:
  "j \<in> set (matched els) \<Longrightarrow>
   is_video (els ! j) \<or> hasClass (el_classes (els ! j)) ''video-bg-container''"
  by (simp add: matched_def)

lemma touch_other: "touch a False False x = x"
  by (simp add: touch_def)

lemma container_has_video:
  assumes j: "j \<in> set (matched els)"
    and v: "videoElement_of els j = Some v" and c: "videoContainer_of els j = Some c"
  shows "is_video (els ! c) \<or> find_video els c \<noteq> None"
proof (cases "hasClass (el_classes (els ! j)) ''video-bg-container''")
  case True
  with c have "c = j" by (simp add: videoContainer_of_def)
  with v show ?thesis by (auto simp: videoElement_of_def split: if_splits)
next
  case False
  with c have cl: "closest els ''video-bg-container'' j = Some c"
    by (simp add: videoContainer_of_def)
  from find_Some_mem [OF cl [unfolded closest_def]]
  have "c \<in> set (j # ancestors els j)"
    and "hasClass (el_classes (els ! c)) ''video-bg-container''"
    by blast+
  with False have anc: "c \<in> set (ancestors els j)" by auto
  from matched_kind [OF j] False have "is_video (els ! j)" by simp
  with anc matched_bound [OF j] have "find_video els c \<noteq> None"
    by (auto simp: find_video_def find_None_iff)
  then show ?thesis by simp
qed

text \<open>
  C10. A container that is not a video and has no video below it: the callback returns
  at line 125 when it reaches it, and the whole pass leaves it as it was, its classes and
  its opacity included, wherever it lies and whether or not the pass runs to its end. No
  other step can change it, since a step changes only the video and the wrapper it
  resolves, and a wrapper resolved with a video has that video below it or is it.
\<close>

theorem wrapper_without_video:
  assumes "c < length els" and "\<not> is_video (els ! c)" and "find_video els c = None"
  shows "video_fx sc els c = Inr els \<and> fst (triggerVideoEffects sc els) ! c = els ! c"
proof -
  have one: "video_fx sc els c = Inr els"
    using assms by (simp add: video_fx_def videoElement_of_def)
  obtain els' r where run: "each_fx sc (matched els) els = (els', r)"
    by (cases "each_fx sc (matched els) els")
  let ?Q = "\<lambda>x. map static x = map static els \<and> x ! c = els ! c"
  have "?Q els'"
  proof (rule each_fx_invariant [OF run, where Q = ?Q])
    show "?Q els" by simp
  next
    fix els1 j els2
    assume q: "?Q els1" and j: "j \<in> set (matched els)" and s: "video_fx sc els1 j = Inr els2"
    from q have eq: "map static els1 = map static els" by simp
    note len = static_length [OF eq]
    have jl: "j < length els1" using matched_bound [OF j] len by simp
    have st: "map static els2 = map static els"
      using video_fx_static [OF s jl] eq by simp
    have "els2 ! c = els1 ! c"
      using video_fx_step(2) [OF s jl]
    proof
      assume "videoElement_of els1 j = None \<and> els2 = els1"
      then show ?thesis by simp
    next
      assume "\<exists>v d b. sc = Some b \<and> videoElement_of els1 j = Some v \<and>
            videoContainer_of els1 j = Some d \<and> v < length els1 \<and> d < length els1 \<and>
            (\<forall>k < length els1.
               els2 ! k = touch (inViewport b (els1 ! d)) (k = v) (k = d) (els1 ! k))"
      then obtain v d b where v1: "videoElement_of els1 j = Some v"
        and d1: "videoContainer_of els1 j = Some d"
        and nth: "\<forall>k < length els1.
               els2 ! k = touch (inViewport b (els1 ! d)) (k = v) (k = d) (els1 ! k)"
        by blast
      from v1 d1 resolve_cong [OF eq matched_bound [OF j]]
      have v: "videoElement_of els j = Some v" and d: "videoContainer_of els j = Some d"
        by simp_all
      from videoElement_is_video [OF v matched_bound [OF j]] assms(2) have "c \<noteq> v" by auto
      moreover from container_has_video [OF j v d] assms(2,3) have "c \<noteq> d" by auto
      ultimately show ?thesis
        using nth assms(1) len by (simp add: touch_other)
    qed
    with st q show "?Q els2" by simp
  qed
  with run one show ?thesis by (simp add: triggerVideoEffects_def)
qed


theorem wrapper_without_video_witness:
  "\<not> is_video ([wrapper0] ! 0) \<and> find_video [wrapper0] 0 = None \<and>
   matched [wrapper0] = [0] \<and> inViewport box0 ([wrapper0] ! 0) \<and>
   fst (triggerVideoEffects (Some box0) [wrapper0]) ! 0 = wrapper0"
proof -
  have a: "(0::nat) < length [wrapper0]" by simp
  have b: "\<not> is_video ([wrapper0] ! 0)" by (simp add: wrapper0_def)
  have c: "find_video [wrapper0] 0 = None" by code_simp
  have d: "matched [wrapper0] = [0]" "inViewport box0 ([wrapper0] ! 0)" by code_simp+
  show ?thesis
    using wrapper_without_video [OF a b c, of "Some box0"] b c d by simp
qed

lemma pass_pointwise:
  assumes t: "\<And>a b c x. P x \<Longrightarrow> P (touch a b c x)"
    and v: "v < length els" and p: "P (els ! v)"
  shows "length (fst (triggerVideoEffects sc els)) = length els \<and>
         P (fst (triggerVideoEffects sc els) ! v)"
proof -
  obtain els' r where run: "each_fx sc (matched els) els = (els', r)"
    by (cases "each_fx sc (matched els) els")
  let ?Q = "\<lambda>x. length x = length els \<and> P (x ! v)"
  have "?Q els'"
  proof (rule each_fx_invariant [OF run, where Q = ?Q])
    show "?Q els" using p by simp
  next
    fix els1 j els2
    assume q: "?Q els1" and j: "j \<in> set (matched els)" and s: "video_fx sc els1 j = Inr els2"
    have jl: "j < length els1" using matched_bound [OF j] q by simp
    note st = video_fx_step [OF s jl]
    from st(2) q v t have "P (els2 ! v)" by auto
    with st(1) q show "?Q els2" by simp
  qed
  with run show ?thesis by (simp add: triggerVideoEffects_def)
qed

lemma passes_pointwise:
  assumes t: "\<And>a b c x. P x \<Longrightarrow> P (touch a b c x)"
    and g: "\<And>x a b. P x \<Longrightarrow> P (x\<lparr>offset_top := a, outerHeight := b\<rparr>)"
    and v: "v < length els" and p: "P (els ! v)"
  shows "P (passes ps els ! v)"
  using v p
proof (induction ps arbitrary: els)
  case Nil
  then show ?case by simp
next
  case (Cons a ps)
  obtain geo sc where a: "a = (geo, sc)" by (cases a)
  have l: "v < length (relayout geo els)" using Cons.prems(1) by (simp add: relayout_def)
  have "P (relayout geo els ! v)"
    using Cons.prems g by (simp add: relayout_def)
  from pass_pointwise [of P, OF t l this, of sc] l
  have "v < length (fst (triggerVideoEffects sc (relayout geo els)))"
    and "P (fst (triggerVideoEffects sc (relayout geo els)) ! v)"
    by simp_all
  from Cons.IH [OF this] a show ?case by simp
qed

text \<open>
  C9. Over any sequence of passes, whatever the layout and the scroll container of each:
  a video whose source is not empty keeps its source and is not loaded again; and a video
  with a staged source (a \<^verbatim>\<open>data-src\<close> that is not empty) is loaded at most once, which
  happens only when its source was empty and gives it the staged one. The source is the
  string that was assigned; a browser reports the URL it resolves to, which is not empty
  either, and which the model does not compute for an empty \<^verbatim>\<open>data-src\<close>.
\<close>

theorem deferred_source_once:
  assumes v: "v < length els"
  shows "(src (els ! v) \<noteq> [] \<longrightarrow>
            src (passes ps els ! v) = src (els ! v) \<and>
            load_calls (passes ps els ! v) = load_calls (els ! v)) \<and>
         (\<forall>d. data_src (els ! v) = Some d \<and> d \<noteq> [] \<longrightarrow>
            load_calls (passes ps els ! v) \<le> load_calls (els ! v) + 1 \<and>
            (load_calls (passes ps els ! v) = load_calls (els ! v) + 1 \<longrightarrow>
               src (els ! v) = [] \<and> src (passes ps els ! v) = d))"
proof -
  have a: "src (passes ps els ! v) = src (els ! v) \<and>
        load_calls (passes ps els ! v) = load_calls (els ! v)" if n: "src (els ! v) \<noteq> []"
  proof -
    let ?P = "\<lambda>x. src x = src (els ! v) \<and> load_calls x = load_calls (els ! v)"
    show ?thesis
    proof (rule passes_pointwise [of ?P, OF _ _ v])
      show "?P (touch a b c x)" if "?P x" for a b c x
        using that n
        by (auto simp: touch_def stage_def start_def reveal_def fade_def play_def load_def
            split: option.splits)
    qed simp_all
  qed
  have b: "load_calls (passes ps els ! v) \<le> load_calls (els ! v) + 1 \<and>
        (load_calls (passes ps els ! v) = load_calls (els ! v) + 1 \<longrightarrow>
               src (els ! v) = [] \<and> src (passes ps els ! v) = d)"
    if d: "data_src (els ! v) = Some d" "d \<noteq> []" for d
  proof -
    let ?P = "\<lambda>x. data_src x = Some d \<and>
        (src x = src (els ! v) \<and> load_calls x = load_calls (els ! v) \<or>
         src (els ! v) = [] \<and> src x = d \<and> load_calls x = load_calls (els ! v) + 1)"
    have "?P (passes ps els ! v)"
    proof (rule passes_pointwise [of ?P, OF _ _ v])
      show "?P (touch a b c x)" if "?P x" for a b c x
        using that d
        by (auto simp: touch_def stage_def start_def reveal_def fade_def play_def load_def
            split: option.splits)
    qed (simp_all add: d)
    then show ?thesis by auto
  qed
  from a b show ?thesis by blast
qed

theorem deferred_source_once_witness:
  "data_src ([wrapper0, video0] ! 1) = Some ''clip.mp4'' \<and>
   load_calls ([wrapper0, video0] ! 1) = 0 \<and>
   load_calls (passes [(\<lambda>k. (100, 200), Some box0), (\<lambda>k. (150, 200), Some box0),
                       (\<lambda>k. (100, 200), Some box0)] [wrapper0, video0] ! 1) = 1 \<and>
   src (passes [(\<lambda>k. (100, 200), Some box0), (\<lambda>k. (150, 200), Some box0),
                (\<lambda>k. (100, 200), Some box0)] [wrapper0, video0] ! 1) = ''clip.mp4''"
proof -
  let ?ps = "[(\<lambda>k. (100, 200), Some box0), (\<lambda>k. (150, 200), Some box0),
              (\<lambda>k::nat. (100::int, 200::int), Some box0)]"
  have a: "(1::nat) < length [wrapper0, video0]" by simp
  have d: "data_src ([wrapper0, video0] ! 1) = Some ''clip.mp4''"
    "load_calls ([wrapper0, video0] ! 1) = 0"
    by (simp_all add: video0_def)
  have l: "load_calls (passes ?ps [wrapper0, video0] ! 1) = 1" by code_simp
  show ?thesis
    using deferred_source_once [OF a, of ?ps] d l by simp
qed

lemma step_static:
  assumes eq: "map static els1 = map static els" and j: "j \<in> set (matched els)"
    and s: "video_fx (Some b) els1 j = Inr els2"
  shows "map static els2 = map static els"
    and "(videoElement_of els j = None \<and> els2 = els1) \<or>
         (\<exists>vj cj. videoElement_of els j = Some vj \<and> videoContainer_of els j = Some cj \<and>
            (\<forall>k < length els.
               els2 ! k = touch (inViewport b (els ! cj)) (k = vj) (k = cj) (els1 ! k)))"
proof -
  note len = static_length [OF eq]
  have jl: "j < length els1" using matched_bound [OF j] len by simp
  show "map static els2 = map static els"
    using video_fx_static [OF s jl] eq by simp
  note r = resolve_cong [OF eq matched_bound [OF j]]
  from video_fx_step(2) [OF s jl]
  show "(videoElement_of els j = None \<and> els2 = els1) \<or>
         (\<exists>vj cj. videoElement_of els j = Some vj \<and> videoContainer_of els j = Some cj \<and>
            (\<forall>k < length els.
               els2 ! k = touch (inViewport b (els ! cj)) (k = vj) (k = cj) (els1 ! k)))"
  proof
    assume "videoElement_of els1 j = None \<and> els2 = els1"
    with r show ?thesis by simp
  next
    assume "\<exists>v c b'. Some b = Some b' \<and> videoElement_of els1 j = Some v \<and>
            videoContainer_of els1 j = Some c \<and> v < length els1 \<and> c < length els1 \<and>
            (\<forall>k < length els1.
               els2 ! k = touch (inViewport b' (els1 ! c)) (k = v) (k = c) (els1 ! k))"
    then obtain v c where v: "videoElement_of els1 j = Some v"
      and c: "videoContainer_of els1 j = Some c" and cl: "c < length els1"
      and nth: "\<forall>k < length els1.
               els2 ! k = touch (inViewport b (els1 ! c)) (k = v) (k = c) (els1 ! k)"
      by auto
    from cl len have "static (els1 ! c) = static (els ! c)"
      using static_nth [OF eq] by simp
    from inViewport_cong [OF this] have "inViewport b (els1 ! c) = inViewport b (els ! c)" .
    with nth len v c r show ?thesis by auto
  qed
qed

lemma pass_keep:
  assumes run: "triggerVideoEffects (Some b) els = (els', r)" and k: "k < length els"
    and q0: "Q (els ! k)"
    and stepQ: "\<And>j vj cj x. j \<in> set (matched els) \<Longrightarrow> videoElement_of els j = Some vj \<Longrightarrow>
        videoContainer_of els j = Some cj \<Longrightarrow> static x = static (els ! k) \<Longrightarrow> Q x \<Longrightarrow>
        Q (touch (inViewport b (els ! cj)) (k = vj) (k = cj) x)"
  shows "Q (els' ! k)"
proof -
  let ?Q = "\<lambda>x. map static x = map static els \<and> Q (x ! k)"
  from run have e: "each_fx (Some b) (matched els) els = (els', r)"
    by (simp add: triggerVideoEffects_def)
  have "?Q els'"
  proof (rule each_fx_invariant [OF e, where Q = ?Q])
    show "?Q els" using q0 by simp
  next
    fix els1 j els2
    assume q: "?Q els1" and j: "j \<in> set (matched els)" and s: "video_fx (Some b) els1 j = Inr els2"
    from q have eq: "map static els1 = map static els" by simp
    note st = step_static [OF eq j s]
    have sk: "static (els1 ! k) = static (els ! k)" using static_nth [OF eq k] .
    from st(2) have "Q (els2 ! k)"
    proof
      assume "videoElement_of els j = None \<and> els2 = els1"
      with q show ?thesis by simp
    next
      assume "\<exists>vj cj. videoElement_of els j = Some vj \<and> videoContainer_of els j = Some cj \<and>
            (\<forall>k < length els.
               els2 ! k = touch (inViewport b (els ! cj)) (k = vj) (k = cj) (els1 ! k))"
      then obtain vj cj where "videoElement_of els j = Some vj" "videoContainer_of els j = Some cj"
        "els2 ! k = touch (inViewport b (els ! cj)) (k = vj) (k = cj) (els1 ! k)"
        using k by blast
      with stepQ [OF j _ _ sk] q show ?thesis by simp
    qed
    with st(1) show "?Q els2" by simp
  qed
  then show ?thesis by simp
qed

lemma pass_establish:
  assumes run: "triggerVideoEffects (Some b) els = (els', None)" and i: "i \<in> set (matched els)"
    and vi: "videoElement_of els i = Some v" and ci: "videoContainer_of els i = Some c"
    and k: "k < length els" and q0: "Q (els ! k)"
    and stepQ: "\<And>j vj cj x. j \<in> set (matched els) \<Longrightarrow> videoElement_of els j = Some vj \<Longrightarrow>
        videoContainer_of els j = Some cj \<Longrightarrow> static x = static (els ! k) \<Longrightarrow> Q x \<Longrightarrow>
        Q (touch (inViewport b (els ! cj)) (k = vj) (k = cj) x)"
    and stepI: "\<And>x. static x = static (els ! k) \<Longrightarrow> Q x \<Longrightarrow>
        R (touch (inViewport b (els ! c)) (k = v) (k = c) x)"
    and stepR: "\<And>j vj cj x. j \<in> set (matched els) \<Longrightarrow> videoElement_of els j = Some vj \<Longrightarrow>
        videoContainer_of els j = Some cj \<Longrightarrow> static x = static (els ! k) \<Longrightarrow> R x \<Longrightarrow>
        R (touch (inViewport b (els ! cj)) (k = vj) (k = cj) x)"
  shows "R (els' ! k)"
proof -
  let ?Q = "\<lambda>x. map static x = map static els \<and> Q (x ! k)"
  let ?R = "\<lambda>x. map static x = map static els \<and> R (x ! k)"
  from run have e: "each_fx (Some b) (matched els) els = (els', None)"
    by (simp add: triggerVideoEffects_def)
  have keep: "map static els2 = map static els \<and> P (els2 ! k)"
    if eq: "map static els1 = map static els" and p: "P (els1 ! k)"
      and j: "j \<in> set (matched els)" and s: "video_fx (Some b) els1 j = Inr els2"
      and stepP: "\<And>j vj cj x. j \<in> set (matched els) \<Longrightarrow> videoElement_of els j = Some vj \<Longrightarrow>
        videoContainer_of els j = Some cj \<Longrightarrow> static x = static (els ! k) \<Longrightarrow> P x \<Longrightarrow>
        P (touch (inViewport b (els ! cj)) (k = vj) (k = cj) x)"
    for els1 els2 j P
  proof -
    note st = step_static [OF eq j s]
    have sk: "static (els1 ! k) = static (els ! k)" using static_nth [OF eq k] .
    from st(2) have "P (els2 ! k)"
    proof
      assume "videoElement_of els j = None \<and> els2 = els1"
      with p show ?thesis by simp
    next
      assume "\<exists>vj cj. videoElement_of els j = Some vj \<and> videoContainer_of els j = Some cj \<and>
            (\<forall>k < length els.
               els2 ! k = touch (inViewport b (els ! cj)) (k = vj) (k = cj) (els1 ! k))"
      then obtain vj cj where "videoElement_of els j = Some vj" "videoContainer_of els j = Some cj"
        "els2 ! k = touch (inViewport b (els ! cj)) (k = vj) (k = cj) (els1 ! k)"
        using k by blast
      with stepP [OF j _ _ sk] p show ?thesis by simp
    qed
    with st(1) show ?thesis by simp
  qed
  have "?R els'"
  proof (rule each_fx_establish [OF e i, where Q = ?Q and R = ?R])
    show "?Q els" using q0 by simp
  next
    fix els1 j els2
    assume "?Q els1" "j \<in> set (matched els)" "video_fx (Some b) els1 j = Inr els2"
    then show "?Q els2" using keep [of els1 Q j els2] stepQ by blast
  next
    fix els1 j els2
    assume "?R els1" "j \<in> set (matched els)" "video_fx (Some b) els1 j = Inr els2"
    then show "?R els2" using keep [of els1 R j els2] stepR by blast
  next
    fix els1 els2
    assume q: "?Q els1" and s: "video_fx (Some b) els1 i = Inr els2"
    from q have eq: "map static els1 = map static els" by simp
    note st = step_static [OF eq i s]
    have sk: "static (els1 ! k) = static (els ! k)" using static_nth [OF eq k] .
    from st(2) vi ci k
    have "els2 ! k = touch (inViewport b (els ! c)) (k = v) (k = c) (els1 ! k)" by auto
    with stepI [OF sk] q st(1) show "?R els2" by simp
  qed
  then show ?thesis by simp
qed

lemma hasClass_reveal:
  "hasClass (el_classes x) ''scroll-fx-in-fade'' \<Longrightarrow>
   hasClass (el_classes (reveal x)) ''scroll-fx-in-range'' \<and> opacity (reveal x) = Some ''1''"
  by (simp add: reveal_def hasClass_def set_addClass)

lemma wrapper_in_view:
  assumes run: "triggerVideoEffects (Some b) els = (els', None)" and i: "i \<in> set (matched els)"
    and vi: "videoElement_of els i = Some v" and ci: "videoContainer_of els i = Some c"
    and inv: "inViewport b (els ! c)"
    and f: "hasClass (el_classes (els ! c)) ''scroll-fx-in-fade''"
  shows "hasClass (el_classes (els' ! c)) ''scroll-fx-in-range'' \<and> opacity (els' ! c) = Some ''1''"
proof -
  let ?R = "\<lambda>x. hasClass (el_classes x) ''scroll-fx-in-range'' \<and> opacity x = Some ''1''"
  have cl: "c < length els" using videoContainer_bound [OF ci matched_bound [OF i]] .
  have fx: "hasClass (el_classes x) ''scroll-fx-in-fade''" if "static x = static (els ! c)" for x
    using static_hasClass [OF that, of "''scroll-fx-in-fade''"] f by simp
  have keepR: "?R (touch (inViewport b (els ! cj)) (c = vj) (c = cj) x)"
    if "static x = static (els ! c)" "?R x" for x vj cj
    using that inv fx [OF that(1)] hasClass_reveal [of "stage x"] hasClass_reveal [of x]
    by (auto simp: touch_def start_def play_def stage_def load_def split: option.splits)
  show ?thesis
  proof (rule pass_establish [OF run i vi ci cl, where Q = "\<lambda>x. True" and R = ?R])
    fix x assume sx: "static x = static (els ! c)"
    have "hasClass (el_classes (stage x)) ''scroll-fx-in-fade''"
      using fx [OF sx] by (simp add: stage_def load_def split: option.splits)
    with fx [OF sx] hasClass_reveal [of "stage x"] hasClass_reveal [of x] inv
    show "?R (touch (inViewport b (els ! c)) (c = v) (c = c) x)"
      by (auto simp: touch_def start_def play_def)
  qed (simp_all add: keepR)
qed

lemma wrapper_out_of_view:
  assumes run: "triggerVideoEffects (Some b) els = (els', None)" and i: "i \<in> set (matched els)"
    and vi: "videoElement_of els i = Some v" and ci: "videoContainer_of els i = Some c"
    and out: "\<not> inViewport b (els ! c)"
  shows "el_classes (els' ! c) = el_classes (els ! c) \<and> opacity (els' ! c) = opacity (fade (els ! c))"
proof -
  let ?Q = "\<lambda>x. el_classes x = el_classes (els ! c) \<and>
      (opacity x = opacity (els ! c) \<or> opacity x = opacity (fade (els ! c)))"
  let ?R = "\<lambda>x. el_classes x = el_classes (els ! c) \<and> opacity x = opacity (fade (els ! c))"
  have cl: "c < length els" using videoContainer_bound [OF ci matched_bound [OF i]] .
  show ?thesis
  proof (rule pass_establish [OF run i vi ci cl, where Q = ?Q and R = ?R])
    show "?Q (els ! c)" by simp
  next
    fix j vj cj and x :: element assume "?Q x"
    with out show "?Q (touch (inViewport b (els ! cj)) (c = vj) (c = cj) x)"
      by (auto simp: touch_def start_def play_def stage_def load_def fade_def split: option.splits)
  next
    fix x assume "static x = static (els ! c)" "?Q x"
    with out show "?R (touch (inViewport b (els ! c)) (c = v) (c = c) x)"
      by (auto simp: touch_def fade_def)
  next
    fix j vj cj and x :: element assume "?R x"
    with out show "?R (touch (inViewport b (els ! cj)) (c = vj) (c = cj) x)"
      by (auto simp: touch_def start_def play_def stage_def load_def fade_def split: option.splits)
  qed
qed

lemma media_part_reveal: "media_part (reveal x) = media_part x"
  by (simp add: media_part_def reveal_def)

lemma media_part_fade: "media_part (fade x) = media_part x"
  by (simp add: media_part_def fade_def)

lemma media_part_stage: "media_part (stage x) = stage_fields (media_part x)"
  by (simp add: media_part_def stage_fields_def stage_def load_def split: option.splits)

lemma media_part_start: "media_part (start x) = start_fields (media_part x)"
  by (simp add: media_part_def start_fields_def start_def play_def)

lemma before_stage_fields: "video_before old m \<Longrightarrow> video_before old (stage_fields m)"
  by (cases old; cases m) (auto simp: video_before_def stage_fields_def split: option.splits)

lemma before_start_fields: "video_before old m \<Longrightarrow> video_before old (start_fields m)"
  by (cases old; cases m) (auto simp: video_before_def start_fields_def)

lemma after_stage_fields: "video_after old m \<Longrightarrow> video_after old (stage_fields m)"
  by (cases old; cases m) (auto simp: video_after_def stage_fields_def split: option.splits)

lemma after_start_fields: "video_after old m \<Longrightarrow> video_after old (start_fields m)"
  by (cases old; cases m) (auto simp: video_after_def start_fields_def)

lemma establish_fields:
  "video_before old m \<Longrightarrow> video_after old (start_fields (stage_fields m))"
  by (cases old; cases m)
    (auto simp: video_before_def video_after_def start_fields_def stage_fields_def
      split: option.splits)

lemma video_before_stage: "video_before old (media_part x) \<Longrightarrow> video_before old (media_part (stage x))"
  by (simp add: media_part_stage before_stage_fields)

lemma video_before_start: "video_before old (media_part x) \<Longrightarrow> video_before old (media_part (start x))"
  by (simp add: media_part_start before_start_fields)

lemma video_after_stage: "video_after old (media_part x) \<Longrightarrow> video_after old (media_part (stage x))"
  by (simp add: media_part_stage after_stage_fields)

lemma video_after_start: "video_after old (media_part x) \<Longrightarrow> video_after old (media_part (start x))"
  by (simp add: media_part_start after_start_fields)

lemma video_establish:
  "video_before old (media_part x) \<Longrightarrow> video_after old (media_part (start (stage x)))"
  by (simp add: media_part_start media_part_stage establish_fields)

lemma media_part_start_reveal: "media_part (start (reveal y)) = media_part (start y)"
  by (simp add: media_part_start media_part_reveal)

lemma video_before_touch:
  "video_before old (media_part x) \<Longrightarrow> video_before old (media_part (touch a b c x))"
  by (simp add: touch_def media_part_reveal media_part_fade media_part_start_reveal
      video_before_stage video_before_start)

lemma video_after_touch:
  "video_after old (media_part x) \<Longrightarrow> video_after old (media_part (touch a b c x))"
  by (simp add: touch_def media_part_reveal media_part_fade media_part_start_reveal
      video_after_stage video_after_start)

lemma video_establish_touch:
  "video_before old (media_part x) \<Longrightarrow> video_after old (media_part (touch True True c x))"
  by (simp add: touch_def media_part_start_reveal video_establish)

lemma video_in_view:
  assumes run: "triggerVideoEffects (Some b) els = (els', None)" and i: "i \<in> set (matched els)"
    and vi: "videoElement_of els i = Some v" and ci: "videoContainer_of els i = Some c"
    and inv: "inViewport b (els ! c)"
  shows "src (els' ! v) = src (stage (els ! v)) \<and>
         (data_src (els ! v) \<noteq> None \<and> src (els ! v) = [] \<longrightarrow>
            load_calls (els ! v) < load_calls (els' ! v)) \<and>
         (autoplay (els ! v) \<and> paused (els ! v) \<longrightarrow>
            play_calls (els ! v) < play_calls (els' ! v))"
proof -
  define old where "old = media_part (els ! v)"
  have vl: "v < length els" using videoElement_is_video [OF vi matched_bound [OF i]] by simp
  have "video_after old (media_part (els' ! v))"
  proof (rule pass_establish [OF run i vi ci vl,
        where Q = "\<lambda>x. video_before old (media_part x)"
          and R = "\<lambda>x. video_after old (media_part x)"])
    show "video_before old (media_part (els ! v))"
      by (simp add: old_def video_before_def media_part_def)
  next
    fix x :: element
    assume "video_before old (media_part x)"
    with inv show "video_after old (media_part (touch (inViewport b (els ! c)) (v = v) (v = c) x))"
      by (simp add: video_establish_touch)
  qed (simp_all add: video_before_touch video_after_touch)
  then show ?thesis
    by (auto simp: old_def video_after_def media_part_def stage_def load_def split: option.splits)
qed

lemma video_out_of_view:
  assumes run: "triggerVideoEffects (Some b) els = (els', r)" and vl: "v < length els"
    and h: "\<forall>j \<in> set (matched els). videoElement_of els j = Some v \<longrightarrow>
         (\<exists>c'. videoContainer_of els j = Some c' \<and> \<not> inViewport b (els ! c'))"
  shows "src (els' ! v) = src (els ! v) \<and> load_calls (els' ! v) = load_calls (els ! v) \<and>
         play_calls (els' ! v) = play_calls (els ! v) \<and> paused (els' ! v) = paused (els ! v)"
proof -
  let ?Q = "\<lambda>x. src x = src (els ! v) \<and> load_calls x = load_calls (els ! v) \<and>
         play_calls x = play_calls (els ! v) \<and> paused x = paused (els ! v)"
  show ?thesis
  proof (rule pass_keep [OF run vl, where Q = ?Q])
    show "?Q (els ! v)" by simp
  next
    fix j vj cj and x :: element
    assume j: "j \<in> set (matched els)" and vj: "videoElement_of els j = Some vj"
      and cj: "videoContainer_of els j = Some cj" and q: "?Q x"
    have "\<not> inViewport b (els ! cj)" if "v = vj"
      using h j vj cj that by auto
    with q show "?Q (touch (inViewport b (els ! cj)) (v = vj) (v = cj) x)"
      by (auto simp: touch_def fade_def reveal_def)
  qed
qed

text \<open>
  C6, as amended. In a pass that runs to its end, for a tagged element \<open>i\<close> with its
  video \<open>v\<close> and its wrapper \<open>c\<close>. When the band of the wrapper meets the visible
  band of the container (the test of line 129): after the pass the video has its staged
  source if it had one and no source, and was loaded for it; the wrapper, if it fades in,
  has the class \<^verbatim>\<open>scroll-fx-in-range\<close> and the opacity 1; and the video, if it was
  paused with \<^verbatim>\<open>autoplay\<close>, has been played. When the band of the wrapper does not meet
  it: the classes of the wrapper are as before and its opacity is 0 if it fades out and
  as before otherwise; and the video is not loaded or played in the pass, provided every
  tagged element that resolves to this video has its wrapper outside the band.
\<close>

theorem viewport_intersection:
  assumes "triggerVideoEffects (Some b) els = (els', None)" and "i \<in> set (matched els)"
    and "videoElement_of els i = Some v" and "videoContainer_of els i = Some c"
  shows "(inViewport b (els ! c) \<longrightarrow>
            src (els' ! v) =
              (case data_src (els ! v) of
                 None \<Rightarrow> src (els ! v)
               | Some staged \<Rightarrow> if src (els ! v) = [] then staged else src (els ! v)) \<and>
            (data_src (els ! v) \<noteq> None \<and> src (els ! v) = [] \<longrightarrow>
               load_calls (els ! v) < load_calls (els' ! v)) \<and>
            (hasClass (el_classes (els ! c)) ''scroll-fx-in-fade'' \<longrightarrow>
               hasClass (el_classes (els' ! c)) ''scroll-fx-in-range'' \<and>
               opacity (els' ! c) = Some ''1'') \<and>
            (autoplay (els ! v) \<and> paused (els ! v) \<longrightarrow>
               play_calls (els ! v) < play_calls (els' ! v))) \<and>
         (\<not> inViewport b (els ! c) \<longrightarrow>
            el_classes (els' ! c) = el_classes (els ! c) \<and>
            opacity (els' ! c) =
              (if hasClass (el_classes (els ! c)) ''scroll-fx-out-fade'' then Some ''0''
               else opacity (els ! c)) \<and>
            ((\<forall>j \<in> set (matched els). videoElement_of els j = Some v \<longrightarrow>
                (\<exists>c'. videoContainer_of els j = Some c' \<and> \<not> inViewport b (els ! c'))) \<longrightarrow>
               src (els' ! v) = src (els ! v) \<and> load_calls (els' ! v) = load_calls (els ! v) \<and>
               play_calls (els' ! v) = play_calls (els ! v) \<and> paused (els' ! v) = paused (els ! v)))"
proof -
  have vl: "v < length els"
    using videoElement_is_video [OF assms(3) matched_bound [OF assms(2)]] by simp
  have a: "src (els' ! v) =
              (case data_src (els ! v) of
                 None \<Rightarrow> src (els ! v)
               | Some staged \<Rightarrow> if src (els ! v) = [] then staged else src (els ! v)) \<and>
            (data_src (els ! v) \<noteq> None \<and> src (els ! v) = [] \<longrightarrow>
               load_calls (els ! v) < load_calls (els' ! v)) \<and>
            (autoplay (els ! v) \<and> paused (els ! v) \<longrightarrow>
               play_calls (els ! v) < play_calls (els' ! v))"
    if "inViewport b (els ! c)"
    using video_in_view [OF assms that]
    by (simp add: stage_def load_def split: option.splits)
  have b: "el_classes (els' ! c) = el_classes (els ! c) \<and>
            opacity (els' ! c) =
              (if hasClass (el_classes (els ! c)) ''scroll-fx-out-fade'' then Some ''0''
               else opacity (els ! c))"
    if "\<not> inViewport b (els ! c)"
    using wrapper_out_of_view [OF assms that] by (simp add: fade_def)
  from a b wrapper_in_view [OF assms] video_out_of_view [OF assms(1) vl]
  show ?thesis by blast
qed

theorem viewport_intersection_witness:
  "inViewport box0 ([wrapper0, video0] ! 0) \<and>
   src (fst (triggerVideoEffects (Some box0) [wrapper0, video0]) ! 1) = ''clip.mp4'' \<and>
   opacity (fst (triggerVideoEffects (Some box0) [wrapper0, video0]) ! 0) = Some ''1'' \<and>
   \<not> inViewport box0 ([wrapper0\<lparr>offset_top := 2000\<rparr>, video0] ! 0) \<and>
   src (fst (triggerVideoEffects (Some box0) [wrapper0\<lparr>offset_top := 2000\<rparr>, video0]) ! 1) = []"
proof -
  let ?els = "[wrapper0, video0]"
  let ?far = "[wrapper0\<lparr>offset_top := 2000\<rparr>, video0]"
  have r: "triggerVideoEffects (Some box0) ?els = (fst (triggerVideoEffects (Some box0) ?els), None)"
    "triggerVideoEffects (Some box0) ?far = (fst (triggerVideoEffects (Some box0) ?far), None)"
    by code_simp+
  have m: "0 \<in> set (matched ?els)" "matched ?far = [0]" by code_simp+
  have v: "videoElement_of ?els 0 = Some 1" "videoElement_of ?far 0 = Some 1" by code_simp+
  have c: "videoContainer_of ?els 0 = Some 0" "videoContainer_of ?far 0 = Some 0" by code_simp+
  have i: "inViewport box0 (?els ! 0)" "\<not> inViewport box0 (?far ! 0)" by code_simp+
  have f: "hasClass (el_classes (?els ! 0)) ''scroll-fx-in-fade''" by code_simp
  have d: "data_src (?els ! 1) = Some ''clip.mp4''" "src (?els ! 1) = []" "src (?far ! 1) = []"
    by (simp_all add: video0_def)
  have m': "0 \<in> set (matched ?far)" using m(2) by simp
  note near = viewport_intersection [OF r(1) m(1) v(1) c(1)]
  note far = viewport_intersection [OF r(2) m' v(2) c(2)]
  have "src (fst (triggerVideoEffects (Some box0) ?els) ! 1) = ''clip.mp4''"
    using near i(1) d by simp
  moreover have "opacity (fst (triggerVideoEffects (Some box0) ?els) ! 0) = Some ''1''"
    using near i(1) f by blast
  moreover have "src (fst (triggerVideoEffects (Some box0) ?far) ! 1) = []"
  proof -
    have "\<forall>j \<in> set (matched ?far). videoElement_of ?far j = Some 1 \<longrightarrow>
        (\<exists>c'. videoContainer_of ?far j = Some c' \<and> \<not> inViewport box0 (?far ! c'))"
      using m(2) c(2) i(2) by simp
    with far i(2) have "src (fst (triggerVideoEffects (Some box0) ?far) ! 1) = src (?far ! 1)"
      by blast
    with d show ?thesis by simp
  qed
  ultimately show ?thesis using i by blast
qed

text \<open>
  The claim C6 as it is written does not hold of a wrapper inside another one. The outer
  wrapper is in the band and resolves to the first video below it, which is the video of
  the inner wrapper; the inner wrapper lies 2000 px down, outside the band of 800 px, and
  its video is loaded and played in the pass.
\<close>

theorem viewport_intersection_counterexample:
  "matched nested = [0, 1] \<and>
   videoContainer_of nested 1 = Some 1 \<and> videoElement_of nested 1 = Some 2 \<and>
   \<not> inViewport box0 (nested ! 1) \<and>
   box_scrollTop box0 + box_height box0
     < offset_top (nested ! 1) - box_offset_top box0 + box_scrollTop box0 \<and>
   snd (triggerVideoEffects (Some box0) nested) = None \<and>
   src (nested ! 2) = [] \<and> load_calls (nested ! 2) = 0 \<and> play_calls (nested ! 2) = 0 \<and>
   src (fst (triggerVideoEffects (Some box0) nested) ! 2) = ''clip.mp4'' \<and>
   load_calls (fst (triggerVideoEffects (Some box0) nested) ! 2) = 1 \<and>
   play_calls (fst (triggerVideoEffects (Some box0) nested) ! 2) = 1"
  by code_simp

text \<open>
  A pass does not run to its end when a tagged video has no wrapper around it: line 127
  reads \<^verbatim>\<open>.top\<close> of \<^verbatim>\<open>undefined\<close>, and the elements after it are not reached, here a
  wrapper in the band.
\<close>

lemma pass_aborts_without_wrapper:
  "matched bare = [0, 1] \<and> videoContainer_of bare 0 = None \<and>
   inViewport box0 (bare ! 1) \<and>
   triggerVideoEffects (Some box0) bare = (bare, Some TypeError)"
  by code_simp

end
